theory Spec2Isabelle
  imports
    Complex_Main
    "HOL-Library.Multiset"
    "HOL-Library.List_Lexorder"
    "HOL-Library.Char_ord"
    "HOL-Library.Monad_Syntax"
    "HOL-Library.Log_Nat"
begin

section \<open>JavaScript numbers\<close>

text \<open>
  A JavaScript \<open>number\<close> is an IEEE-754 double. A finite one is modelled by the rational
  it denotes, so \<open>+0\<close> and \<open>-0\<close> are the one value \<open>Finite 0\<close>: the program never divides
  and \<open>===\<close>, \<open><\<close> and \<open>toString\<close> do not tell them apart. The other values are the two
  infinities and NaN.

  \<open>toNumber x\<close> is the double for the real number \<open>x\<close>, rounded to nearest with ties to
  the even significand, as every arithmetic operation and the reading of a decimal
  literal round. A double is a multiple of \<open>2^-1074\<close>. In these units, \<open>quantum t\<close> is the
  exponent of the spacing of the doubles around the magnitude \<open>t\<close>: 0 below \<open>2^53\<close>
  (subnormal numbers and the first binades), and otherwise the number of bits of the
  integer part of \<open>t\<close> beyond 53. A result of magnitude \<open>2^1024\<close> or more is an infinity.
\<close>

datatype number = Finite rat | PosInfinity | NegInfinity | NaN

definition roundHalfEven :: "rat \<Rightarrow> int" where
  "roundHalfEven q =
     (let f = \<lfloor>q\<rfloor>; d = q - of_int f in
      if d < 1/2 then f else if 1/2 < d then f + 1 else if even f then f else f + 1)"

definition quantum :: "rat \<Rightarrow> nat" where
  "quantum t = (if t < 2 ^ 53 then 0 else nat (bitlen \<lfloor>t\<rfloor> - 53))"

definition roundMagnitude :: "rat \<Rightarrow> rat" where
  "roundMagnitude a =
     (let t = a * 2 ^ 1074; k = quantum t in
      of_int (roundHalfEven (t / 2 ^ k)) * 2 ^ k / 2 ^ 1074)"

definition toNumber :: "rat \<Rightarrow> number" where
  "toNumber x =
     (let r = roundMagnitude \<bar>x\<bar> in
      if 2 ^ 1024 \<le> r then (if x < 0 then NegInfinity else PosInfinity)
      else Finite (if x < 0 then - r else r))"

text \<open>\<open>x + y\<close>, \<open>-x\<close>, \<open>x - y\<close> (which is \<open>x + (-y)\<close>), \<open>x * y\<close> and \<open>Math.floor(x)\<close>.\<close>

fun numAdd :: "number \<Rightarrow> number \<Rightarrow> number" where
  "numAdd (Finite a) (Finite b) = toNumber (a + b)"
| "numAdd NaN y = NaN"
| "numAdd x NaN = NaN"
| "numAdd PosInfinity NegInfinity = NaN"
| "numAdd NegInfinity PosInfinity = NaN"
| "numAdd PosInfinity y = PosInfinity"
| "numAdd x PosInfinity = PosInfinity"
| "numAdd NegInfinity y = NegInfinity"
| "numAdd x NegInfinity = NegInfinity"

fun numNeg :: "number \<Rightarrow> number" where
  "numNeg (Finite a) = Finite (- a)"
| "numNeg PosInfinity = NegInfinity"
| "numNeg NegInfinity = PosInfinity"
| "numNeg NaN = NaN"

definition numSub :: "number \<Rightarrow> number \<Rightarrow> number" where
  "numSub x y = numAdd x (numNeg y)"

fun numMul :: "number \<Rightarrow> number \<Rightarrow> number" where
  "numMul (Finite a) (Finite b) = toNumber (a * b)"
| "numMul NaN y = NaN"
| "numMul x NaN = NaN"
| "numMul (Finite a) PosInfinity = (if a = 0 then NaN else if 0 < a then PosInfinity else NegInfinity)"
| "numMul (Finite a) NegInfinity = (if a = 0 then NaN else if 0 < a then NegInfinity else PosInfinity)"
| "numMul PosInfinity (Finite b) = (if b = 0 then NaN else if 0 < b then PosInfinity else NegInfinity)"
| "numMul NegInfinity (Finite b) = (if b = 0 then NaN else if 0 < b then NegInfinity else PosInfinity)"
| "numMul PosInfinity PosInfinity = PosInfinity"
| "numMul NegInfinity NegInfinity = PosInfinity"
| "numMul PosInfinity NegInfinity = NegInfinity"
| "numMul NegInfinity PosInfinity = NegInfinity"

fun numFloor :: "number \<Rightarrow> number" where
  "numFloor (Finite a) = Finite (of_int \<lfloor>a\<rfloor>)"
| "numFloor x = x"

text \<open>The comparison \<open>x >= 0\<close>, which is false of NaN.\<close>

fun atLeastZero :: "number \<Rightarrow> bool" where
  "atLeastZero (Finite a) = (0 \<le> a)"
| "atLeastZero PosInfinity = True"
| "atLeastZero x = False"


section \<open>Data model (types.ts and the rows read from the store)\<close>

text \<open>
  The interfaces of \<^verbatim>\<open>types.ts\<close> become records with the field names of the source.
  Several interfaces share field names (\<open>id\<close>, \<open>name\<close>, \<open>createdAt\<close>, \<open>totalIn\<close>, ...), so
  fields are always written with the record's name in front, as in \<open>Transaction.amount tx\<close>.

  An amount or a total is a \<open>number\<close>. A \<open>createdAt\<close> is a time value in milliseconds,
  an integer that a double holds exactly, and is an \<open>int\<close>. An optional property
  (\<open>partyName?\<close>) is an \<open>option\<close>. The \<open>type\<close> of a transaction is typed \<open>TransactionType\<close> in the source
  but is whatever string the store returns (\<open>t.type as TransactionType\<close> checks nothing), so
  it is a \<open>string\<close> here, and \<open>TransactionType.IN\<close> is the string \<open>''IN''\<close>.
\<close>

record Transaction =
  id :: string
  bookId :: string
  amount :: number
  type :: string
  date :: string
  time :: string
  "note" :: string
  partyName :: "string option"
  category :: "string option"
  attachmentUrl :: "string option"
  createdAt :: int

record TransactionWithBalance = Transaction +
  runningBalance :: number

record Book =
  id :: string
  businessId :: string
  name :: string
  createdAt :: int

record BookWithTotals = Book +
  totalIn :: number
  totalOut :: number
  balance :: number

record Business =
  id :: string
  userId :: string
  name :: string
  currency :: string
  joinCode :: string
  createdAt :: int

record BusinessWithTotals = Business +
  totalIn :: number
  totalOut :: number
  balance :: number
  bookCount :: nat
  books :: "BookWithTotals list option"
  isShared :: "bool option"
  ownerEmail :: "string option"

definition TransactionType_IN :: string where
  "TransactionType_IN = ''IN''"

text \<open>
  Rows as the store returns them (\<open>any\<close> in the source). \<open>entry\<close> is a row of the nested
  selection \<open>entries (amount, type)\<close>; \<open>entries_row\<close> is a row of \<open>from('entries').select('*')\<close>;
  \<open>ledger\<close> and \<open>project\<close> are rows of the tables of these names with their nested
  selections. A column that may be null or absent is an \<open>option\<close>. \<open>created_at\<close> holds the
  instant that \<open>new Date(created_at).getTime()\<close> returns, in milliseconds.
\<close>

record entry =
  amount :: number
  type :: string

record entries_row =
  id :: string
  ledger_id :: string
  amount :: number
  type :: string
  date :: string
  time :: string
  "note" :: "string option"
  party_name :: "string option"
  category :: "string option"
  attachment_url :: "string option"
  created_at :: int

record ledger =
  id :: string
  project_id :: string
  name :: string
  created_at :: int
  entries :: "entry list option"

record project =
  id :: string
  owner_id :: string
  name :: string
  currency :: string
  join_code :: string
  created_at :: int
  ledgers :: "ledger list option"
  owner :: "string option"
  isShared :: "bool option"
  ownerEmail :: "string option"


section \<open>Array.prototype.sort with a comparator\<close>

text \<open>
  \<open>xs.sort(comparefn)\<close> is stable, and a comparator result that is NaN counts as \<open>+0\<close>
  (ECMAScript, SortCompare). A comparator returns \<open>None\<close> for NaN. The sort is modelled as
  the stable insertion sort driven by the comparator: \<open>x\<close> goes in front of the first
  \<open>y\<close> of the already sorted rest that it does not compare greater than. For a consistent
  comparator every stable sort returns this list; for an inconsistent one ECMAScript leaves
  the order to the engine.
\<close>

definition sortCompare :: "('a \<Rightarrow> 'a \<Rightarrow> int option) \<Rightarrow> 'a \<Rightarrow> 'a \<Rightarrow> int" where
  "sortCompare comparefn x y = (case comparefn x y of None \<Rightarrow> 0 | Some v \<Rightarrow> v)"

fun insertSorted :: "('a \<Rightarrow> 'a \<Rightarrow> int option) \<Rightarrow> 'a \<Rightarrow> 'a list \<Rightarrow> 'a list" where
  "insertSorted comparefn x [] = [x]"
| "insertSorted comparefn x (y # ys) =
     (if sortCompare comparefn x y \<le> 0 then x # y # ys
      else y # insertSorted comparefn x ys)"

definition array_sort :: "('a \<Rightarrow> 'a \<Rightarrow> int option) \<Rightarrow> 'a list \<Rightarrow> 'a list" where
  "array_sort comparefn xs = foldr (insertSorted comparefn) xs []"


section \<open>Totals (services/storage.ts: getBusinesses, getBooks, getBookTotals)\<close>

text \<open>
  The loop over the entries of a ledger is written three times in the source, each time as
  \<^verbatim>\<open>entries.forEach(t => { if (t.type === 'IN') in += Number(t.amount); else out += Number(t.amount); })\<close>
  under the guard \<open>if (entries)\<close>. \<open>addEntry\<close> is one round of the loop on the pair of
  accumulators, \<open>sumEntries\<close> the guarded loop started at \<open>(0, 0)\<close>.
\<close>

fun addEntry :: "number \<times> number \<Rightarrow> entry \<Rightarrow> number \<times> number" where
  "addEntry (tIn, tOut) t =
     (if entry.type t = ''IN'' then (numAdd tIn (entry.amount t), tOut)
      else (tIn, numAdd tOut (entry.amount t)))"

definition sumEntries :: "entry list option \<Rightarrow> number \<times> number" where
  "sumEntries es =
     (case es of
        None \<Rightarrow> (Finite 0, Finite 0)
      | Some ts \<Rightarrow> foldl addEntry (Finite 0, Finite 0) ts)"

text \<open>\<open>getBookTotals\<close>: \<open>None\<close> stands for \<open>error || !data\<close>, answered with \<open>null\<close>.\<close>

definition getBookTotals :: "ledger option \<Rightarrow> BookWithTotals option" where
  "getBookTotals res =
     (case res of
        None \<Rightarrow> None
      | Some data \<Rightarrow>
          (let (tIn, tOut) = sumEntries (ledger.entries data) in
           Some \<lparr>Book.id = ledger.id data,
                 Book.businessId = ledger.project_id data,
                 Book.name = ledger.name data,
                 Book.createdAt = ledger.created_at data,
                 BookWithTotals.totalIn = tIn,
                 BookWithTotals.totalOut = tOut,
                 BookWithTotals.balance = numSub tIn tOut\<rparr>))"

text \<open>\<open>getBooks\<close>: \<open>None\<close> stands for \<open>error || !data\<close>, answered with the empty array.\<close>

definition getBooks :: "ledger list option \<Rightarrow> BookWithTotals list" where
  "getBooks res =
     (case res of
        None \<Rightarrow> []
      | Some data \<Rightarrow>
          map (\<lambda>b. let (tIn, tOut) = sumEntries (ledger.entries b) in
                 \<lparr>Book.id = ledger.id b,
                  Book.businessId = ledger.project_id b,
                  Book.name = ledger.name b,
                  Book.createdAt = ledger.created_at b,
                  BookWithTotals.totalIn = tIn,
                  BookWithTotals.totalOut = tOut,
                  BookWithTotals.balance = numSub tIn tOut\<rparr>) data)"

text \<open>
  \<open>getBusinesses\<close>. The callback of \<open>b.ledgers.map\<close> also adds the book's sums to the
  business's \<open>totalIn\<close> and \<open>totalOut\<close>, so the map is a loop over the ledgers that carries
  \<open>(totalIn, totalOut, books)\<close>. The books are then sorted newest first.
\<close>

fun ledgersLoop ::
  "string \<Rightarrow> number \<times> number \<times> BookWithTotals list \<Rightarrow> ledger list
     \<Rightarrow> number \<times> number \<times> BookWithTotals list" where
  "ledgersLoop bid (tIn, tOut, bs) [] = (tIn, tOut, bs)"
| "ledgersLoop bid (tIn, tOut, bs) (book # rest) =
     (let (bIn, bOut) = sumEntries (ledger.entries book) in
      ledgersLoop bid
        (numAdd tIn bIn, numAdd tOut bOut,
         bs @ [\<lparr>Book.id = ledger.id book,
                 Book.businessId = bid,
                 Book.name = ledger.name book,
                 Book.createdAt = ledger.created_at book,
                 BookWithTotals.totalIn = bIn,
                 BookWithTotals.totalOut = bOut,
                 BookWithTotals.balance = numSub bIn bOut\<rparr>])
        rest)"

definition newestFirst :: "BookWithTotals \<Rightarrow> BookWithTotals \<Rightarrow> int option" where
  "newestFirst a b = Some (Book.createdAt b - Book.createdAt a)"

definition toBusinessWithTotals :: "project \<Rightarrow> BusinessWithTotals" where
  "toBusinessWithTotals b =
     (let (tIn, tOut, count, bs) =
        (case project.ledgers b of
           None \<Rightarrow> (Finite 0, Finite 0, 0, [])
         | Some ls \<Rightarrow>
             (let (tIn, tOut, bs) = ledgersLoop (project.id b) (Finite 0, Finite 0, []) ls in
              (tIn, tOut, length ls, array_sort newestFirst bs)))
      in \<lparr>Business.id = project.id b,
           Business.userId = project.owner_id b,
           Business.name = project.name b,
           Business.currency = project.currency b,
           Business.joinCode = project.join_code b,
           Business.createdAt = project.created_at b,
           BusinessWithTotals.totalIn = tIn,
           BusinessWithTotals.totalOut = tOut,
           BusinessWithTotals.balance = numSub tIn tOut,
           BusinessWithTotals.bookCount = count,
           BusinessWithTotals.books = Some bs,
           BusinessWithTotals.isShared = Some (project.isShared b = Some True),
           BusinessWithTotals.ownerEmail = project.ownerEmail b\<rparr>)"

text \<open>
  The two fetches of \<open>getBusinesses\<close>: \<open>ownedData || []\<close>, and the projects shared with the
  user, each marked \<open>isShared: true\<close> and given its owner's email.
\<close>

definition getBusinesses :: "project list option \<Rightarrow> project list option \<Rightarrow> BusinessWithTotals list" where
  "getBusinesses ownedData sharedData =
     (let ownedBusinesses = (case ownedData of None \<Rightarrow> [] | Some ps \<Rightarrow> ps);
          sharedBusinesses =
            (case sharedData of
               None \<Rightarrow> []
             | Some ps \<Rightarrow>
                 map (\<lambda>p. p\<lparr>project.isShared := Some True,
                            project.ownerEmail := project.owner p\<rparr>) ps);
          allBusinesses = ownedBusinesses @ sharedBusinesses
      in map toBusinessWithTotals allBusinesses)"

text \<open>
  \<open>BusinessDetailView.loadData\<close> aggregates the books of \<open>getBooks\<close> for the view:
  \<^verbatim>\<open>booksData.reduce((sum, b) => sum + b.totalIn, 0)\<close> and the same for \<open>totalOut\<close>.
\<close>

definition loadData :: "Business \<Rightarrow> BookWithTotals list \<Rightarrow> BusinessWithTotals" where
  "loadData bRaw booksData =
     (let tIn = foldl (\<lambda>sum b. numAdd sum (BookWithTotals.totalIn b)) (Finite 0) booksData;
          tOut = foldl (\<lambda>sum b. numAdd sum (BookWithTotals.totalOut b)) (Finite 0) booksData
      in Business.extend bRaw
           \<lparr>BusinessWithTotals.totalIn = tIn,
            BusinessWithTotals.totalOut = tOut,
            BusinessWithTotals.balance = numSub tIn tOut,
            BusinessWithTotals.bookCount = length booksData,
            BusinessWithTotals.books = None,
            BusinessWithTotals.isShared = None,
            BusinessWithTotals.ownerEmail = None\<rparr>)"


section \<open>The join code (services/storage.ts: createBusiness)\<close>

text \<open>
  \<^verbatim>\<open>Math.floor(100000 + Math.random() * 900000).toString()\<close>. The draw of \<open>Math.random()\<close>
  is the argument \<open>random\<close>. \<open>numberToString\<close> is \<open>Number.prototype.toString\<close>: for a number
  whose value is an integer below \<open>10^21\<close> in size, its decimal digits after a minus sign
  when it is negative. The decimal form of any other finite number is not modelled
  (\<open>None\<close>).
\<close>

definition digitChar :: "nat \<Rightarrow> char" where
  "digitChar d = ''0123456789'' ! d"

fun natToString :: "nat \<Rightarrow> string" where
  "natToString n =
     (if n < 10 then [digitChar n] else natToString (n div 10) @ [digitChar (n mod 10)])"

declare natToString.simps [simp del]

fun numberToString :: "number \<Rightarrow> string option" where
  "numberToString NaN = Some ''NaN''"
| "numberToString PosInfinity = Some ''Infinity''"
| "numberToString NegInfinity = Some ''-Infinity''"
| "numberToString (Finite a) =
     (if a = of_int \<lfloor>a\<rfloor> \<and> \<bar>a\<bar> < 10 ^ 21
      then Some (if a < 0 then CHR ''-'' # natToString (nat (- \<lfloor>a\<rfloor>))
                 else natToString (nat \<lfloor>a\<rfloor>))
      else None)"

definition joinCode :: "number \<Rightarrow> string option" where
  "joinCode random =
     numberToString (numFloor (numAdd (Finite 100000) (numMul random (Finite 900000))))"


section \<open>The timestamp of a transaction\<close>

text \<open>
  \<^verbatim>\<open>new Date(`${a.date}T${a.time}`).getTime()\<close>. The string is parsed by the date-time
  format of ECMAScript in its forms \<open>YYYY-MM-DDTHH:mm\<close>, \<open>YYYY-MM-DDTHH:mm:ss\<close> and
  \<open>YYYY-MM-DDTHH:mm:ss.sss\<close>, which denote a local time. The month is 01 to 12 and the
  day 01 to 31 whatever the month, as V8 (Chrome, Node) checks them, so that a day a month
  does not have runs into the next month; the time is 00:00 to 23:59:59.999, or 24:00 for
  the end of the day. Any other string counts as unparseable (NaN, here \<open>None\<close>): the
  forms with a zone offset and the formats an engine accepts beyond the standard are not
  modelled.

  The local time value follows ECMAScript's \<open>MakeDay\<close>, \<open>MakeTime\<close> and \<open>MakeDate\<close>, and is
  turned into the time value by ECMAScript's \<open>UTC(t)\<close>, which depends on the time zone of the
  host and its daylight-saving rules: it is the parameter \<open>utc\<close>. In a zone with the fixed
  offset \<open>o\<close> it is \<open>\<lambda>t. t - o\<close>. Time values are integers that a double holds exactly, and
  \<open>dateA - dateB\<close> is exact.
\<close>

definition digitVal :: "char \<Rightarrow> nat option" where
  "digitVal c =
     (let n = (of_char c :: nat) in if 48 \<le> n \<and> n \<le> 57 then Some (n - 48) else None)"

fun digitsVal :: "nat \<Rightarrow> string \<Rightarrow> nat option" where
  "digitsVal acc [] = Some acc"
| "digitsVal acc (c # cs) =
     (case digitVal c of None \<Rightarrow> None | Some d \<Rightarrow> digitsVal (10 * acc + d) cs)"

definition DaysInYear :: "int \<Rightarrow> int" where
  "DaysInYear y =
     (if y mod 4 \<noteq> 0 then 365
      else if y mod 100 \<noteq> 0 then 366
      else if y mod 400 \<noteq> 0 then 365
      else 366)"

definition InLeapYear :: "int \<Rightarrow> int" where
  "InLeapYear y = (if DaysInYear y = 366 then 1 else 0)"

definition DayFromYear :: "int \<Rightarrow> int" where
  "DayFromYear y =
     365 * (y - 1970) + (y - 1969) div 4 - (y - 1901) div 100 + (y - 1601) div 400"

text \<open>The day within the year on which month \<open>m\<close> (0 is January) starts, and its length.\<close>

definition monthStart :: "int \<Rightarrow> nat \<Rightarrow> int" where
  "monthStart y m =
     (let l = InLeapYear y in
      [0, 31, 59 + l, 90 + l, 120 + l, 151 + l, 181 + l, 212 + l, 243 + l, 273 + l,
       304 + l, 334 + l] ! m)"

definition DaysInMonth :: "int \<Rightarrow> nat \<Rightarrow> nat" where
  "DaysInMonth y m =
     [31, 28 + nat (InLeapYear y), 31, 30, 31, 30, 31, 31, 30, 31, 30, 31] ! m"

definition MakeDay :: "int \<Rightarrow> nat \<Rightarrow> nat \<Rightarrow> int" where
  "MakeDay y m d = DayFromYear y + monthStart y m + int d - 1"

definition MakeTime :: "nat \<Rightarrow> nat \<Rightarrow> nat \<Rightarrow> nat \<Rightarrow> int" where
  "MakeTime h mi s ms = int h * 3600000 + int mi * 60000 + int s * 1000 + int ms"

definition MakeDate :: "int \<Rightarrow> int \<Rightarrow> int" where
  "MakeDate day tm = day * 86400000 + tm"

text \<open>
  What follows \<open>HH:mm\<close> in the string: nothing, \<open>:ss\<close> or \<open>:ss.sss\<close>, as
  \<open>(seconds, milliseconds)\<close>.
\<close>

definition parseSeconds :: "string \<Rightarrow> (nat \<times> nat) option" where
  "parseSeconds r =
     (if r = [] then Some (0, 0)
      else if length r = 3 \<and> r ! 0 = CHR '':'' then
        (case digitsVal 0 (drop 1 r) of Some s \<Rightarrow> Some (s, 0) | None \<Rightarrow> None)
      else if length r = 7 \<and> r ! 0 = CHR '':'' \<and> r ! 3 = CHR ''.'' then
        (case (digitsVal 0 (take 2 (drop 1 r)), digitsVal 0 (drop 4 r)) of
           (Some s, Some ms) \<Rightarrow> Some (s, ms)
         | _ \<Rightarrow> None)
      else None)"

text \<open>The local time value of the string, when it parses.\<close>

definition parseDateTime :: "string \<Rightarrow> int option" where
  "parseDateTime s =
     (if 16 \<le> length s \<and> s ! 4 = CHR ''-'' \<and> s ! 7 = CHR ''-'' \<and> s ! 10 = CHR ''T''
         \<and> s ! 13 = CHR '':''
      then
        (case (digitsVal 0 (take 4 s), digitsVal 0 (take 2 (drop 5 s)),
               digitsVal 0 (take 2 (drop 8 s)), digitsVal 0 (take 2 (drop 11 s)),
               digitsVal 0 (take 2 (drop 14 s)), parseSeconds (drop 16 s)) of
           (Some y, Some mo, Some d, Some h, Some mi, Some (sec, ms)) \<Rightarrow>
             if 1 \<le> mo \<and> mo \<le> 12 \<and> 1 \<le> d \<and> d \<le> 31
                \<and> (h \<le> 23 \<and> mi \<le> 59 \<and> sec \<le> 59 \<or> h = 24 \<and> mi = 0 \<and> sec = 0 \<and> ms = 0)
             then Some (MakeDate (MakeDay (int y) (mo - 1) d) (MakeTime h mi sec ms))
             else None
         | _ \<Rightarrow> None)
      else None)"

definition getTime :: "(int \<Rightarrow> int) \<Rightarrow> string \<Rightarrow> int option" where
  "getTime utc s = map_option utc (parseDateTime s)"


section \<open>Running balances (services/storage.ts: getTransactionsWithBalance)\<close>

text \<open>The row of the store as a \<open>Transaction\<close>; \<open>t.note || ''\<close> turns a missing note into \<open>''\<close>.\<close>

definition toTransaction :: "entries_row \<Rightarrow> Transaction" where
  "toTransaction t =
     \<lparr>Transaction.id = entries_row.id t,
      Transaction.bookId = entries_row.ledger_id t,
      Transaction.amount = entries_row.amount t,
      Transaction.type = entries_row.type t,
      Transaction.date = entries_row.date t,
      Transaction.time = entries_row.time t,
      Transaction.note = (case entries_row.note t of None \<Rightarrow> [] | Some n \<Rightarrow> n),
      Transaction.partyName = entries_row.party_name t,
      Transaction.category = entries_row.category t,
      Transaction.attachmentUrl = entries_row.attachment_url t,
      Transaction.createdAt = entries_row.created_at t\<rparr>"

text \<open>
  The comparator of the sort: \<open>dateA - dateB\<close>, NaN as soon as one of the two strings
  does not parse.
\<close>

definition byDateTime :: "(int \<Rightarrow> int) \<Rightarrow> Transaction \<Rightarrow> Transaction \<Rightarrow> int option" where
  "byDateTime utc a b =
     (case (getTime utc (Transaction.date a @ ''T'' @ Transaction.time a),
            getTime utc (Transaction.date b @ ''T'' @ Transaction.time b)) of
        (Some dateA, Some dateB) \<Rightarrow> Some (dateA - dateB)
      | _ \<Rightarrow> None)"

definition sortedAsc :: "(int \<Rightarrow> int) \<Rightarrow> Transaction list \<Rightarrow> Transaction list" where
  "sortedAsc utc txs = array_sort (byDateTime utc) txs"

text \<open>
  \<open>sortedAsc.map(tx => ...)\<close> with the variable \<open>running\<close> of the enclosing scope: the
  accumulator is passed along, and each transaction is copied with the field
  \<open>runningBalance\<close> added (\<open>{ ...tx, runningBalance: running }\<close>).
\<close>

fun withBalance :: "number \<Rightarrow> Transaction list \<Rightarrow> TransactionWithBalance list" where
  "withBalance running [] = []"
| "withBalance running (tx # rest) =
     (let running' =
        (if Transaction.type tx = TransactionType_IN then numAdd running (Transaction.amount tx)
         else numSub running (Transaction.amount tx))
      in Transaction.extend tx \<lparr>runningBalance = running'\<rparr> # withBalance running' rest)"

text \<open>
  \<open>computeRunningBalances\<close> is the name the specification gives to the computation on the
  fetched transactions (the sort, the pass and the final \<open>reverse()\<close>);
  \<open>getTransactionsWithBalance\<close> applies it to the rows of the store, and answers \<open>[]\<close>
  when the fetch failed (\<open>None\<close>).
\<close>

definition computeRunningBalances ::
  "(int \<Rightarrow> int) \<Rightarrow> Transaction list \<Rightarrow> TransactionWithBalance list" where
  "computeRunningBalances utc txs = rev (withBalance (Finite 0) (sortedAsc utc txs))"

definition getTransactionsWithBalance ::
  "(int \<Rightarrow> int) \<Rightarrow> entries_row list option \<Rightarrow> TransactionWithBalance list" where
  "getTransactionsWithBalance utc res =
     (case res of
        None \<Rightarrow> []
      | Some data \<Rightarrow> computeRunningBalances utc (map toTransaction data))"


section \<open>The arrays of getTransactionsWithBalance in a store\<close>

text \<open>
  A JavaScript array is a mutable object reached through a reference: \<open>sort\<close> and
  \<open>reverse\<close> change the array they are called on and return it, the spread \<open>[...txs]\<close>
  and \<open>map\<close> allocate a new array. To follow which array is written, the computation of
  \<open>getTransactionsWithBalance\<close> on \<open>txs\<close> is written once more on a store of arrays. A
  reference is an index into the store and an allocation appends. \<open>None\<close> is the reading
  of a reference that holds no array of the expected element type, which the types of the
  source exclude.
\<close>

datatype array = Transactions "Transaction list" | WithBalances "TransactionWithBalance list"

type_synonym store = "array list"

definition alloc :: "array \<Rightarrow> store \<Rightarrow> nat \<times> store" where
  "alloc a s = (length s, s @ [a])"

definition transactionsAt :: "store \<Rightarrow> nat \<Rightarrow> Transaction list option" where
  "transactionsAt s r =
     (if r < length s then (case s ! r of Transactions xs \<Rightarrow> Some xs | _ \<Rightarrow> None) else None)"

definition withBalancesAt :: "store \<Rightarrow> nat \<Rightarrow> TransactionWithBalance list option" where
  "withBalancesAt s r =
     (if r < length s then (case s ! r of WithBalances xs \<Rightarrow> Some xs | _ \<Rightarrow> None) else None)"

text \<open>\<open>[...txs]\<close>, \<open>xs.sort(comparefn)\<close>, \<open>sortedAsc.map(tx => ...)\<close> and \<open>withBalance.reverse()\<close>.\<close>

definition spread :: "nat \<Rightarrow> store \<Rightarrow> (nat \<times> store) option" where
  "spread r s = map_option (\<lambda>xs. alloc (Transactions xs) s) (transactionsAt s r)"

definition sort_in_place ::
  "(Transaction \<Rightarrow> Transaction \<Rightarrow> int option) \<Rightarrow> nat \<Rightarrow> store \<Rightarrow> (nat \<times> store) option" where
  "sort_in_place comparefn r s =
     map_option (\<lambda>xs. (r, s[r := Transactions (array_sort comparefn xs)])) (transactionsAt s r)"

definition map_withBalance :: "nat \<Rightarrow> store \<Rightarrow> (nat \<times> store) option" where
  "map_withBalance r s =
     map_option (\<lambda>xs. alloc (WithBalances (withBalance (Finite 0) xs)) s) (transactionsAt s r)"

definition reverse_in_place :: "nat \<Rightarrow> store \<Rightarrow> (nat \<times> store) option" where
  "reverse_in_place r s =
     map_option (\<lambda>xs. (r, s[r := WithBalances (rev xs)])) (withBalancesAt s r)"

definition computeRunningBalances_store ::
  "(int \<Rightarrow> int) \<Rightarrow> nat \<Rightarrow> store \<Rightarrow> (nat \<times> store) option" where
  "computeRunningBalances_store utc txs s =
     do {
       (copy, s1) \<leftarrow> spread txs s;
       (sortedAsc, s2) \<leftarrow> sort_in_place (byDateTime utc) copy s1;
       (withBalance, s3) \<leftarrow> map_withBalance sortedAsc s2;
       reverse_in_place withBalance s3
     }"


section \<open>Notions used in the statements\<close>

text \<open>
  The sum of a list of numbers as the loops and the \<open>reduce\<close> calls of the source form it:
  from 0, adding the elements from left to right, each addition rounding. The sum of the
  amounts of the entries whose type is \<open>'IN'\<close>, and of all the others; the entries of a
  ledger (none when the column is absent); the \<open>(amount, type)\<close> selection of a
  transaction, which is what the totals are computed from.
\<close>

definition sumNumbers :: "number list \<Rightarrow> number" where
  "sumNumbers xs = foldl numAdd (Finite 0) xs"

definition inAmounts :: "entry list \<Rightarrow> number" where
  "inAmounts ts = sumNumbers (map entry.amount (filter (\<lambda>t. entry.type t = ''IN'') ts))"

definition otherAmounts :: "entry list \<Rightarrow> number" where
  "otherAmounts ts = sumNumbers (map entry.amount (filter (\<lambda>t. entry.type t \<noteq> ''IN'') ts))"

definition entriesOf :: "ledger \<Rightarrow> entry list" where
  "entriesOf l = (case ledger.entries l of None \<Rightarrow> [] | Some ts \<Rightarrow> ts)"

definition entryOf :: "Transaction \<Rightarrow> entry" where
  "entryOf tx = \<lparr>entry.amount = Transaction.amount tx, entry.type = Transaction.type tx\<rparr>"

text \<open>
  A double: a rational that rounding leaves as it is. Amounts that are whole numbers whose
  magnitudes add up to less than \<open>2^53\<close>: every sum and difference of such amounts is a
  whole number below \<open>2^53\<close> in size, which a double holds exactly, so that no addition
  rounds. \<open>valueOf\<close> is the rational that a finite number denotes.
\<close>

definition isNumber :: "rat \<Rightarrow> bool" where
  "isNumber q \<longleftrightarrow> toNumber q = Finite q"

fun wholeNumber :: "number \<Rightarrow> bool" where
  "wholeNumber (Finite a) = (a = of_int \<lfloor>a\<rfloor>)"
| "wholeNumber x = False"

fun magnitude :: "number \<Rightarrow> rat" where
  "magnitude (Finite a) = \<bar>a\<bar>"
| "magnitude x = 0"

fun valueOf :: "number \<Rightarrow> rat" where
  "valueOf (Finite a) = a"
| "valueOf x = 0"

definition safeWholeAmounts :: "number list \<Rightarrow> bool" where
  "safeWholeAmounts xs \<longleftrightarrow> list_all wholeNumber xs \<and> sum_list (map magnitude xs) < 2 ^ 53"

text \<open>
  The exact sums of the amounts that a list of entries holds under \<open>'IN'\<close> and under the
  other types, and the exact signed amount of a transaction as the running balance takes
  it. Rounding a number of units to a multiple of \<open>2^k\<close> units.
\<close>

definition inValue :: "entry list \<Rightarrow> rat" where
  "inValue ts = sum_list (map valueOf (map entry.amount (filter (\<lambda>t. entry.type t = ''IN'') ts)))"

definition otherValue :: "entry list \<Rightarrow> rat" where
  "otherValue ts =
     sum_list (map valueOf (map entry.amount (filter (\<lambda>t. entry.type t \<noteq> ''IN'') ts)))"

definition signedValue :: "Transaction \<Rightarrow> rat" where
  "signedValue tx =
     (if Transaction.type tx = ''IN'' then valueOf (Transaction.amount tx)
      else - valueOf (Transaction.amount tx))"

definition toGrid :: "nat \<Rightarrow> rat \<Rightarrow> rat" where
  "toGrid k t = of_int (roundHalfEven (t / 2 ^ k)) * 2 ^ k"

definition nonNegative :: "entry list option \<Rightarrow> bool" where
  "nonNegative es =
     (case es of None \<Rightarrow> True | Some ts \<Rightarrow> list_all (\<lambda>t. atLeastZero (entry.amount t)) ts)"

text \<open>
  A business summary \<open>s\<close> is the sum of the book summaries \<open>bs\<close>. The projects that
  \<open>getBusinesses\<close> summarises, in the order of its result: the owned ones, then the shared
  ones as marked; the ledgers of a project.
\<close>

definition sumsItsBooks :: "BusinessWithTotals \<Rightarrow> BookWithTotals list \<Rightarrow> bool" where
  "sumsItsBooks s bs \<longleftrightarrow>
     BusinessWithTotals.totalIn s = sumNumbers (map BookWithTotals.totalIn bs)
     \<and> BusinessWithTotals.totalOut s = sumNumbers (map BookWithTotals.totalOut bs)
     \<and> BusinessWithTotals.balance s
         = numSub (BusinessWithTotals.totalIn s) (BusinessWithTotals.totalOut s)
     \<and> BusinessWithTotals.bookCount s = length bs"

definition allBusinesses :: "project list option \<Rightarrow> project list option \<Rightarrow> project list" where
  "allBusinesses ownedData sharedData =
     (case ownedData of None \<Rightarrow> [] | Some ps \<Rightarrow> ps)
     @ (case sharedData of
          None \<Rightarrow> []
        | Some ps \<Rightarrow>
            map (\<lambda>p. p\<lparr>project.isShared := Some True, project.ownerEmail := project.owner p\<rparr>) ps)"

definition ledgersOf :: "project \<Rightarrow> ledger list" where
  "ledgersOf b = (case project.ledgers b of None \<Rightarrow> [] | Some ls \<Rightarrow> ls)"

text \<open>
  A well-formed date is a string \<open>YYYY-MM-DD\<close> that names a day of the calendar, a
  well-formed time a string \<open>HH:mm\<close> from 00:00 to 23:59; \<open>dateFields\<close> and \<open>timeFields\<close>
  return the numbers they hold. Strings are compared as JavaScript compares them, code
  unit by code unit. \<open>notEarlier a b\<close> is the order the specification asks of an output
  element \<open>a\<close> and the element \<open>b\<close> after it.
\<close>

definition dateFields :: "string \<Rightarrow> (nat \<times> nat \<times> nat) option" where
  "dateFields d =
     (if length d = 10 \<and> d ! 4 = CHR ''-'' \<and> d ! 7 = CHR ''-'' then
        (case (digitsVal 0 (take 4 d), digitsVal 0 (take 2 (drop 5 d)), digitsVal 0 (drop 8 d)) of
           (Some y, Some mo, Some dd) \<Rightarrow>
             if 1 \<le> mo \<and> mo \<le> 12 \<and> 1 \<le> dd \<and> dd \<le> DaysInMonth (int y) (mo - 1)
             then Some (y, mo, dd) else None
         | _ \<Rightarrow> None)
      else None)"

definition timeFields :: "string \<Rightarrow> (nat \<times> nat) option" where
  "timeFields t =
     (if length t = 5 \<and> t ! 2 = CHR '':'' then
        (case (digitsVal 0 (take 2 t), digitsVal 0 (drop 3 t)) of
           (Some h, Some mi) \<Rightarrow> if h \<le> 23 \<and> mi \<le> 59 then Some (h, mi) else None
         | _ \<Rightarrow> None)
      else None)"

definition wellFormed :: "Transaction \<Rightarrow> bool" where
  "wellFormed tx \<longleftrightarrow>
     dateFields (Transaction.date tx) \<noteq> None \<and> timeFields (Transaction.time tx) \<noteq> None"

definition notEarlier :: "TransactionWithBalance \<Rightarrow> TransactionWithBalance \<Rightarrow> bool" where
  "notEarlier a b \<longleftrightarrow>
     Transaction.date a > Transaction.date b
     \<or> Transaction.date a = Transaction.date b \<and> Transaction.time a \<ge> Transaction.time b"

text \<open>
  The local time value of a transaction, before the host's \<open>UTC\<close> is applied.
  \<open>keepsOrder utc txs\<close>: on the local times of the transactions \<open>txs\<close>, the host's \<open>UTC\<close> puts
  the earlier local time at the earlier instant. A zone with a fixed offset does so for
  all local times. A zone that sets its clocks forward does not for a local time within
  the skipped hour, which is read with the offset before the change, and a local time
  after it.
\<close>

definition localTime :: "Transaction \<Rightarrow> int option" where
  "localTime tx = parseDateTime (Transaction.date tx @ ''T'' @ Transaction.time tx)"

definition keepsOrder :: "(int \<Rightarrow> int) \<Rightarrow> Transaction list \<Rightarrow> bool" where
  "keepsOrder utc txs \<longleftrightarrow>
     list_all (\<lambda>a. list_all (\<lambda>b.
        case (localTime a, localTime b) of
          (Some s, Some t) \<Rightarrow> s < t \<longrightarrow> utc s < utc t
        | _ \<Rightarrow> True) txs) txs"

text \<open>
  \<open>annotates out tx\<close>: the output element \<open>out\<close> has every field of the transaction \<open>tx\<close>
  with the value it has in \<open>tx\<close>, and is \<open>tx\<close> with the one field \<open>runningBalance\<close> added.
\<close>

definition annotates :: "TransactionWithBalance \<Rightarrow> Transaction \<Rightarrow> bool" where
  "annotates out tx \<longleftrightarrow>
     Transaction.id out = Transaction.id tx
     \<and> Transaction.bookId out = Transaction.bookId tx
     \<and> Transaction.amount out = Transaction.amount tx
     \<and> Transaction.type out = Transaction.type tx
     \<and> Transaction.date out = Transaction.date tx
     \<and> Transaction.time out = Transaction.time tx
     \<and> Transaction.note out = Transaction.note tx
     \<and> Transaction.partyName out = Transaction.partyName tx
     \<and> Transaction.category out = Transaction.category tx
     \<and> Transaction.attachmentUrl out = Transaction.attachmentUrl tx
     \<and> Transaction.createdAt out = Transaction.createdAt tx
     \<and> out = Transaction.extend tx \<lparr>runningBalance = runningBalance out\<rparr>"

text \<open>A day \<open>d\<close> of the month \<open>m\<close> (0 is January) of the year \<open>y\<close>.\<close>

definition validDay :: "int \<Rightarrow> nat \<Rightarrow> nat \<Rightarrow> bool" where
  "validDay y m d \<longleftrightarrow> m \<le> 11 \<and> 1 \<le> d \<and> d \<le> DaysInMonth y m"

text \<open>The time value of a transaction whose strings parse.\<close>

definition stamp :: "(int \<Rightarrow> int) \<Rightarrow> Transaction \<Rightarrow> int" where
  "stamp utc tx = the (getTime utc (Transaction.date tx @ ''T'' @ Transaction.time tx))"

text \<open>
  Sample data. The book of the specification's first scenario, fetched in no order. The
  zone of India, five and a half hours ahead of UTC all year. A zone as New York's around
  10 March 2024: five hours behind UTC for the local times before 03:00 of that day (the
  skipped hour 02:00 to 03:00 among them), four hours behind from 03:00 on.
\<close>

definition mkTx :: "string \<Rightarrow> string \<Rightarrow> number \<Rightarrow> string \<Rightarrow> string \<Rightarrow> Transaction" where
  "mkTx i ty a d t =
     \<lparr>Transaction.id = i, Transaction.bookId = ''book'', Transaction.amount = a,
      Transaction.type = ty, Transaction.date = d, Transaction.time = t,
      Transaction.note = [], Transaction.partyName = None, Transaction.category = None,
      Transaction.attachmentUrl = None, Transaction.createdAt = 0\<rparr>"

definition scenario1 :: "Transaction list" where
  "scenario1 =
     [mkTx ''c'' ''IN'' (Finite 10) ''2024-01-02'' ''08:00'',
      mkTx ''a'' ''IN'' (Finite 100) ''2024-01-01'' ''09:00'',
      mkTx ''b'' ''OUT'' (Finite 40) ''2024-01-01'' ''10:00'']"

text \<open>
  A book whose amounts are not whole: 0.1 in, 0.1 out and 0.2 in, in the order of their
  times, each amount the double that its decimal literal denotes.
\<close>

definition roundingBook :: "Transaction list" where
  "roundingBook =
     [mkTx ''a'' ''IN'' (toNumber (1 / 10)) ''2024-01-01'' ''09:00'',
      mkTx ''b'' ''OUT'' (toNumber (1 / 10)) ''2024-01-01'' ''10:00'',
      mkTx ''c'' ''IN'' (toNumber (1 / 5)) ''2024-01-01'' ''11:00'']"

text \<open>Entries with the amounts 0.1 in, 0.1 out and 1.1 in.\<close>

definition roundingEntries :: "entry list" where
  "roundingEntries =
     [\<lparr>entry.amount = toNumber (1 / 10), entry.type = ''IN''\<rparr>,
      \<lparr>entry.amount = toNumber (1 / 10), entry.type = ''OUT''\<rparr>,
      \<lparr>entry.amount = toNumber (11 / 10), entry.type = ''IN''\<rparr>]"

text \<open>An \<open>OUT\<close> transaction of amount \<open>-5\<close>, later than the book of the first scenario.\<close>

definition negativeOut :: Transaction where
  "negativeOut = mkTx ''x'' ''OUT'' (Finite (- 5)) ''2024-01-03'' ''09:00''"

text \<open>Two transactions of 10 March 2024, at 02:30 and at 03:00.\<close>

definition springForward :: "Transaction list" where
  "springForward =
     [mkTx ''early'' ''IN'' (Finite 1) ''2024-03-10'' ''02:30'',
      mkTx ''late'' ''IN'' (Finite 2) ''2024-03-10'' ''03:00'']"

definition mkLedger :: "entry list \<Rightarrow> ledger" where
  "mkLedger ts =
     \<lparr>ledger.id = ''book'', ledger.project_id = ''business'', ledger.name = ''Cash'',
      ledger.created_at = 0, ledger.entries = Some ts\<rparr>"

definition utcIndia :: "int \<Rightarrow> int" where
  "utcIndia t = t - 19800000"

definition utcNewYork2024 :: "int \<Rightarrow> int" where
  "utcNewYork2024 t = (if t < 1710039600000 then t + 18000000 else t + 14400000)"


section \<open>Auxiliary facts\<close>

subsection \<open>Rounding to a double\<close>

lemma roundHalfEven_of_int: "roundHalfEven (of_int i) = i"
  by (simp add: roundHalfEven_def)

lemma roundHalfEven_bounds: "\<lfloor>q\<rfloor> \<le> roundHalfEven q \<and> roundHalfEven q \<le> \<lfloor>q\<rfloor> + 1"
  by (simp add: roundHalfEven_def Let_def)

lemma roundHalfEven_mono:
  assumes "q \<le> q'"
  shows "roundHalfEven q \<le> roundHalfEven q'"
proof -
  have f: "\<lfloor>q\<rfloor> \<le> \<lfloor>q'\<rfloor>" using assms by (rule floor_mono)
  show ?thesis
  proof (cases "\<lfloor>q\<rfloor> = \<lfloor>q'\<rfloor>")
    case True
    with assms have "q - of_int \<lfloor>q\<rfloor> \<le> q' - of_int \<lfloor>q'\<rfloor>" by simp
    with True show ?thesis
      by (auto simp: roundHalfEven_def Let_def)
  next
    case False
    with f have "\<lfloor>q\<rfloor> + 1 \<le> \<lfloor>q'\<rfloor>" by simp
    with roundHalfEven_bounds [of q] roundHalfEven_bounds [of q'] show ?thesis by linarith
  qed
qed

lemma roundHalfEven_nonneg: "0 \<le> q \<Longrightarrow> 0 \<le> roundHalfEven q"
  using roundHalfEven_mono [of 0 q] roundHalfEven_of_int [of 0] by simp

lemma quantum_bounds:
  "t < 2 ^ (53 + quantum t)" "0 < quantum t \<Longrightarrow> 2 ^ (52 + quantum t) \<le> t"
proof -
  show "t < 2 ^ (53 + quantum t)"
  proof (cases "t < 2 ^ 53")
    case True
    then show ?thesis by (simp add: quantum_def)
  next
    case False
    then have "(2::rat) ^ 53 \<le> t" by simp
    then have "(2::int) ^ 53 \<le> \<lfloor>t\<rfloor>" by (simp add: le_floor_iff)
    then have pos: "0 < \<lfloor>t\<rfloor>" by simp
    from \<open>(2::int) ^ 53 \<le> \<lfloor>t\<rfloor>\<close> have "54 \<le> bitlen \<lfloor>t\<rfloor>"
      by (simp add: bitlen_ge_iff_power)
    then have k: "53 + quantum t = nat (bitlen \<lfloor>t\<rfloor>)"
      using False by (simp add: quantum_def)
    have "\<lfloor>t\<rfloor> < 2 ^ nat (bitlen \<lfloor>t\<rfloor>)" using bitlen_bounds [OF pos] by simp
    then have "\<lfloor>t\<rfloor> + 1 \<le> 2 ^ nat (bitlen \<lfloor>t\<rfloor>)" by simp
    then have "(of_int (\<lfloor>t\<rfloor> + 1) :: rat) \<le> of_int (2 ^ nat (bitlen \<lfloor>t\<rfloor>))"
      by (simp only: of_int_le_iff)
    moreover have "t < of_int (\<lfloor>t\<rfloor> + 1)" by linarith
    ultimately show ?thesis unfolding k by simp
  qed
  show "2 ^ (52 + quantum t) \<le> t" if "0 < quantum t"
  proof -
    from that have nl: "\<not> t < 2 ^ 53" by (auto simp: quantum_def split: if_splits)
    then have "(2::int) ^ 53 \<le> \<lfloor>t\<rfloor>" by (simp add: le_floor_iff)
    then have pos: "0 < \<lfloor>t\<rfloor>" by simp
    from that nl have k: "52 + quantum t = nat (bitlen \<lfloor>t\<rfloor> - 1)"
      by (simp add: quantum_def)
    have "2 ^ nat (bitlen \<lfloor>t\<rfloor> - 1) \<le> \<lfloor>t\<rfloor>" using bitlen_bounds [OF pos] by simp
    then have "(of_int (2 ^ nat (bitlen \<lfloor>t\<rfloor> - 1)) :: rat) \<le> t"
      by (simp only: le_floor_iff)
    then show ?thesis unfolding k by simp
  qed
qed

lemma quantum_eqI:
  assumes "2 ^ (52 + j) \<le> t" and "t < 2 ^ (53 + j)" and "0 < j"
  shows "quantum t = j"
proof -
  have "(2::rat) ^ 53 \<le> 2 ^ (52 + j)"
    using assms(3) by (intro power_increasing) simp_all
  with assms(1) have "\<not> t < 2 ^ 53" by simp
  then have q: "0 < quantum t"
  proof -
    assume nl: "\<not> t < 2 ^ 53"
    then have "(2::int) ^ 53 \<le> \<lfloor>t\<rfloor>" by (simp add: le_floor_iff)
    then have "54 \<le> bitlen \<lfloor>t\<rfloor>" by (simp add: bitlen_ge_iff_power)
    with nl show ?thesis by (simp add: quantum_def)
  qed
  have "(2::rat) ^ (52 + quantum t) < 2 ^ (53 + j)"
    using quantum_bounds(2) [OF q] assms(2) by (rule le_less_trans)
  then have a: "52 + quantum t < 53 + j" by (simp only: power_strict_increasing_iff one_less_numeral_iff semiring_norm)
  have "(2::rat) ^ (52 + j) < 2 ^ (53 + quantum t)"
    using assms(1) quantum_bounds(1) [of t] by (rule le_less_trans)
  then have "52 + j < 53 + quantum t" by (simp only: power_strict_increasing_iff one_less_numeral_iff semiring_norm)
  with a show ?thesis by simp
qed

lemma quantum_mono:
  assumes "t \<le> t'"
  shows "quantum t \<le> quantum t'"
proof (cases "quantum t = 0")
  case True
  then show ?thesis by simp
next
  case False
  then have "(2::rat) ^ (52 + quantum t) \<le> t" by (intro quantum_bounds(2)) simp
  also have "t \<le> t'" by fact
  also have "t' < 2 ^ (53 + quantum t')" by (rule quantum_bounds(1))
  finally have "52 + quantum t < 53 + quantum t'"
    by (simp only: power_strict_increasing_iff one_less_numeral_iff semiring_norm)
  then show ?thesis by simp
qed

lemma toGrid_mono: "t \<le> t' \<Longrightarrow> toGrid k t \<le> toGrid k t'"
  by (simp add: toGrid_def roundHalfEven_mono divide_right_mono)

lemma toGrid_multiple: "toGrid k (of_int n * 2 ^ k) = of_int n * 2 ^ k"
  by (simp add: toGrid_def roundHalfEven_of_int)

lemma toGrid_power:
  assumes "k \<le> n"
  shows "toGrid k (2 ^ n) = 2 ^ n"
proof -
  have "(2::rat) ^ n = of_int (2 ^ (n - k)) * 2 ^ k"
    using assms by (simp add: power_add [symmetric])
  then show ?thesis using toGrid_multiple [of k "2 ^ (n - k)"] by simp
qed

lemma toGrid_quantum_mono:
  assumes "t \<le> t'"
  shows "toGrid (quantum t) t \<le> toGrid (quantum t') t'"
proof (cases "quantum t = quantum t'")
  case True
  then show ?thesis using assms by (simp add: toGrid_mono)
next
  case False
  with quantum_mono [OF assms] have lt: "quantum t < quantum t'" by simp
  let ?B = "(2::rat) ^ (52 + quantum t')"
  have "t < 2 ^ (53 + quantum t)" by (rule quantum_bounds(1))
  also have "(2::rat) ^ (53 + quantum t) \<le> ?B"
    using lt by (intro power_increasing) simp_all
  finally have "t \<le> ?B" by simp
  then have "toGrid (quantum t) t \<le> toGrid (quantum t) ?B" by (rule toGrid_mono)
  also have "\<dots> = ?B" using lt by (intro toGrid_power) simp
  also have "?B = toGrid (quantum t') ?B" by (intro toGrid_power [symmetric]) simp
  also have "\<dots> \<le> toGrid (quantum t') t'"
    using lt by (intro toGrid_mono quantum_bounds(2)) simp
  finally show ?thesis .
qed

lemma roundMagnitude_toGrid:
  "roundMagnitude a = toGrid (quantum (a * 2 ^ 1074)) (a * 2 ^ 1074) / 2 ^ 1074"
  by (simp only: roundMagnitude_def toGrid_def Let_def)

lemma roundMagnitude_mono:
  assumes "a \<le> b"
  shows "roundMagnitude a \<le> roundMagnitude b"
proof -
  have "a * 2 ^ 1074 \<le> b * 2 ^ 1074" using assms by (simp only: mult_right_mono zero_le_numeral zero_le_power)
  then show ?thesis
    unfolding roundMagnitude_toGrid
    by (intro divide_right_mono toGrid_quantum_mono) simp_all
qed

lemma roundMagnitude_0: "roundMagnitude 0 = 0"
  by (simp add: roundMagnitude_toGrid toGrid_def quantum_def roundHalfEven_def)

lemma roundMagnitude_nonneg: "0 \<le> a \<Longrightarrow> 0 \<le> roundMagnitude a"
  using roundMagnitude_mono [of 0 a] by (simp add: roundMagnitude_0)

lemma roundMagnitude_normal:
  assumes p: "p \<le> 1073" and lo: "2 ^ 52 \<le> a * 2 ^ p" and hi: "a * 2 ^ p < 2 ^ 53"
  shows "roundMagnitude a = of_int (roundHalfEven (a * 2 ^ p)) / 2 ^ p"
proof -
  define j where "j = 1074 - p"
  have j: "0 < j" "p + j = 1074" using p by (simp_all add: j_def)
  have s: "(2::rat) ^ 1074 = 2 ^ p * 2 ^ j"
    using j(2) by (simp only: power_add [symmetric])
  have t: "a * 2 ^ 1074 = (a * 2 ^ p) * 2 ^ j"
    by (simp only: s mult.assoc)
  have "2 ^ 52 * 2 ^ j \<le> (a * 2 ^ p) * (2::rat) ^ j"
    using lo by (intro mult_right_mono) simp_all
  then have l: "2 ^ (52 + j) \<le> a * 2 ^ 1074"
    by (simp only: t power_add)
  have "(a * 2 ^ p) * (2::rat) ^ j < 2 ^ 53 * 2 ^ j"
    using hi by (intro mult_strict_right_mono) simp_all
  then have h: "a * 2 ^ 1074 < 2 ^ (53 + j)"
    by (simp only: t power_add)
  have q: "quantum (a * 2 ^ 1074) = j"
    using l h j(1) by (rule quantum_eqI)
  have "a * 2 ^ 1074 / 2 ^ j = (a * 2 ^ p) * 2 ^ j / 2 ^ j"
    by (simp only: t)
  also have "\<dots> = a * 2 ^ p" by simp
  finally have d: "a * 2 ^ 1074 / 2 ^ j = a * 2 ^ p" .
  have g: "toGrid j (a * 2 ^ 1074) = of_int (roundHalfEven (a * 2 ^ p)) * 2 ^ j"
    by (simp only: toGrid_def d)
  have "roundMagnitude a = of_int (roundHalfEven (a * 2 ^ p)) * 2 ^ j / 2 ^ 1074"
    by (simp only: roundMagnitude_toGrid q g)
  also have "\<dots> = of_int (roundHalfEven (a * 2 ^ p)) * 2 ^ j / (2 ^ p * 2 ^ j)"
    by (simp only: s)
  also have "\<dots> = of_int (roundHalfEven (a * 2 ^ p)) / 2 ^ p"
    by simp
  finally show ?thesis .
qed

lemma roundMagnitude_of_int:
  assumes "0 \<le> i" and "i < 2 ^ 53"
  shows "roundMagnitude (of_int i) = of_int i"
proof (cases "i = 0")
  case True
  then show ?thesis by (simp add: roundMagnitude_0)
next
  case False
  with assms have pos: "0 < i" by simp
  have b: "bitlen i \<le> 53" using assms(2) by (simp add: bitlen_le_iff_power)
  have b1: "1 \<le> bitlen i" using pos by (simp add: bitlen_ge_iff_power)
  define p where "p = nat (53 - bitlen i)"
  have p: "p \<le> 1073" using b1 by (simp add: p_def)
  have e1: "nat (bitlen i - 1) + p = 52" using b b1 by (simp add: p_def)
  have e2: "nat (bitlen i) + p = 53" using b b1 by (simp add: p_def)
  have "2 ^ nat (bitlen i - 1) * 2 ^ p \<le> i * 2 ^ p"
    using bitlen_bounds [OF pos] by (intro mult_right_mono) simp_all
  then have "2 ^ 52 \<le> i * 2 ^ p"
    by (simp only: power_add [symmetric] e1)
  then have "(of_int (2 ^ 52) :: rat) \<le> of_int (i * 2 ^ p)"
    by (simp only: of_int_le_iff)
  then have lo: "2 ^ 52 \<le> (of_int i :: rat) * 2 ^ p" by simp
  have "i * 2 ^ p < 2 ^ nat (bitlen i) * 2 ^ p"
    using bitlen_bounds [OF pos] by (intro mult_strict_right_mono) simp_all
  then have "i * 2 ^ p < 2 ^ 53"
    by (simp only: power_add [symmetric] e2)
  then have "(of_int (i * 2 ^ p) :: rat) < of_int (2 ^ 53)"
    by (simp only: of_int_less_iff)
  then have hi: "(of_int i :: rat) * 2 ^ p < 2 ^ 53" by simp
  have "(of_int i :: rat) * 2 ^ p = of_int (i * 2 ^ p)" by simp
  then have "roundHalfEven (of_int i * 2 ^ p) = i * 2 ^ p"
    by (simp only: roundHalfEven_of_int)
  with roundMagnitude_normal [OF p lo hi] show ?thesis by simp
qed

lemma toNumber_of_int:
  assumes "\<bar>i\<bar> < 2 ^ 53"
  shows "toNumber (of_int i) = Finite (of_int i)"
proof -
  have a: "\<bar>of_int i :: rat\<bar> = of_int \<bar>i\<bar>" by simp
  have r: "roundMagnitude (of_int \<bar>i\<bar>) = of_int \<bar>i\<bar>"
    using assms by (intro roundMagnitude_of_int) simp_all
  have "(of_int \<bar>i\<bar> :: rat) < of_int (2 ^ 53)"
    using assms by (simp only: of_int_less_iff)
  then have "(of_int \<bar>i\<bar> :: rat) < 2 ^ 53" by simp
  also have "(2::rat) ^ 53 < 2 ^ 1024" by simp
  finally have "\<not> (2::rat) ^ 1024 \<le> of_int \<bar>i\<bar>" by simp
  then show ?thesis
    unfolding toNumber_def a r Let_def by (cases "i < 0") simp_all
qed

lemma toNumber_nonneg:
  assumes "0 \<le> x"
  shows "toNumber x = PosInfinity \<or> (\<exists>r. toNumber x = Finite r \<and> 0 \<le> r)"
  using assms roundMagnitude_nonneg [of "\<bar>x\<bar>"] by (auto simp: toNumber_def Let_def)

lemma toNumber_between:
  assumes "0 \<le> x" and "x \<le> y" and "roundMagnitude y < 2 ^ 1024"
  shows "\<exists>r. toNumber x = Finite r \<and> 0 \<le> r \<and> r \<le> roundMagnitude y"
proof -
  have "roundMagnitude x \<le> roundMagnitude y" using assms(2) by (rule roundMagnitude_mono)
  moreover have "0 \<le> roundMagnitude x" using assms(1) by (rule roundMagnitude_nonneg)
  ultimately show ?thesis
    using assms(1,3) by (simp add: toNumber_def Let_def)
qed

lemma toNumber_at_least:
  assumes "0 \<le> y" and "y \<le> x" and "toNumber x = Finite r"
  shows "roundMagnitude y \<le> r"
proof -
  have "roundMagnitude y \<le> roundMagnitude x" using assms(2) by (rule roundMagnitude_mono)
  moreover have "0 \<le> x" using assms(1,2) by simp
  ultimately show ?thesis
    using assms(3) by (auto simp: toNumber_def Let_def split: if_splits)
qed

lemma below_one:
  assumes "isNumber r" and "0 \<le> r" and "r < 1"
  shows "r \<le> 1 - 1 / 2 ^ 53"
proof (rule ccontr)
  assume "\<not> r \<le> 1 - 1 / 2 ^ 53"
  then have gt: "1 - 1 / 2 ^ 53 < r" by simp
  have lo: "2 ^ 52 \<le> r * 2 ^ 53" using gt by (simp add: field_simps)
  have hi: "r * 2 ^ 53 < 2 ^ 53" using assms(3) by simp
  have "roundMagnitude r = of_int (roundHalfEven (r * 2 ^ 53)) / 2 ^ 53"
    using lo hi by (intro roundMagnitude_normal) simp_all
  moreover have "roundMagnitude r = r"
    using assms(1,2) by (auto simp: isNumber_def toNumber_def Let_def split: if_splits)
  ultimately have "r * 2 ^ 53 = of_int (roundHalfEven (r * 2 ^ 53))" by simp
  then obtain m :: int where m: "r * 2 ^ 53 = of_int m" ..
  from gt have "2 ^ 53 - 1 < r * 2 ^ 53" by (simp add: field_simps)
  with m have "(of_int (2 ^ 53 - 1) :: rat) < of_int m" by simp
  then have a: "2 ^ 53 - 1 < m" by (simp only: of_int_less_iff)
  from hi m have "(of_int m :: rat) < of_int (2 ^ 53)" by simp
  then have "m < 2 ^ 53" by (simp only: of_int_less_iff)
  with a show False by simp
qed

lemma floor_rat_divide_numeral:
  "\<lfloor>(numeral a :: rat) / numeral b\<rfloor> = numeral a div numeral b"
  using floor_divide_of_int_eq [of "numeral a" "numeral b", where ?'a = rat] by simp

lemma roundHalfEven_le_floor_Suc: "roundHalfEven q \<le> \<lfloor>q\<rfloor> + 1"
  using roundHalfEven_bounds [of q] by simp

lemma toNumber_normal:
  assumes p: "p \<le> 1073" and lo: "2 ^ 52 \<le> \<bar>x\<bar> * 2 ^ p" and hi: "\<bar>x\<bar> * 2 ^ p < 2 ^ 53"
  shows "toNumber x = Finite (sgn x * of_int (roundHalfEven (\<bar>x\<bar> * 2 ^ p)) / 2 ^ p)"
proof -
  let ?m = "roundHalfEven (\<bar>x\<bar> * 2 ^ p)"
  have r: "roundMagnitude \<bar>x\<bar> = of_int ?m / 2 ^ p"
    using p lo hi by (rule roundMagnitude_normal)
  have "\<lfloor>\<bar>x\<bar> * 2 ^ p\<rfloor> < 2 ^ 53"
    using hi by (simp add: floor_less_iff)
  then have "?m \<le> 2 ^ 53" using roundHalfEven_le_floor_Suc [of "\<bar>x\<bar> * 2 ^ p"] by linarith
  then have "(of_int ?m :: rat) \<le> of_int (2 ^ 53)" by (simp only: of_int_le_iff)
  then have m: "(of_int ?m :: rat) \<le> 2 ^ 53" by simp
  have "(of_int ?m :: rat) / 2 ^ p \<le> of_int ?m"
  proof -
    have "0 \<le> ?m" by (intro roundHalfEven_nonneg) simp
    then have "(0::rat) \<le> of_int ?m" by simp
    moreover have "(1::rat) \<le> 2 ^ p" by simp
    ultimately show ?thesis by (simp add: divide_le_eq mult_le_cancel_left1)
  qed
  from this m have "(of_int ?m :: rat) / 2 ^ p \<le> 2 ^ 53" by (rule order_trans)
  also have "(2::rat) ^ 53 < 2 ^ 1024" by simp
  finally have n: "\<not> (2::rat) ^ 1024 \<le> of_int ?m / 2 ^ p" by simp
  have x: "x \<noteq> 0" using lo by auto
  show ?thesis
    unfolding toNumber_def r Let_def using n x by (cases "x < 0") (simp_all add: sgn_if)
qed

lemma toNumber_0: "toNumber 0 = Finite 0"
  using toNumber_of_int [of 0] by simp

lemma toNumber_numeral:
  "numeral w < (2 ^ 53 :: int) \<Longrightarrow> toNumber (numeral w) = Finite (numeral w)"
  using toNumber_of_int [of "numeral w"] by simp

lemma toNumber_neg_numeral:
  "numeral w < (2 ^ 53 :: int) \<Longrightarrow> toNumber (- numeral w) = Finite (- numeral w)"
  using toNumber_of_int [of "- numeral w"] by simp

lemma toNumber_1: "toNumber 1 = Finite 1"
  using toNumber_of_int [of 1] by simp

lemmas toNumber_whole = toNumber_0 toNumber_1 toNumber_numeral toNumber_neg_numeral

lemma numAdd_0_left: "numAdd (Finite 0) x = (case x of Finite a \<Rightarrow> toNumber a | _ \<Rightarrow> x)"
  by (cases x) simp_all

lemma numAdd_atLeastZero:
  assumes "atLeastZero x" and "atLeastZero y"
  shows "atLeastZero (numAdd x y)"
proof (cases x)
  case (Finite a)
  show ?thesis
  proof (cases y)
    case y: (Finite b)
    have "0 \<le> a + b" using assms Finite y by simp
    from toNumber_nonneg [OF this] show ?thesis using Finite y by auto
  qed (use assms Finite in simp_all)
next
  case PosInfinity
  then show ?thesis using assms by (cases y) simp_all
qed (use assms in simp_all)

text \<open>Whole numbers below \<open>2^53\<close> in size add and subtract without rounding.\<close>

lemma toNumber_whole_rat:
  assumes "a = of_int \<lfloor>a\<rfloor>" and "\<bar>a\<bar> < 2 ^ 53"
  shows "toNumber a = Finite a"
proof -
  have "\<bar>of_int \<lfloor>a\<rfloor> :: rat\<bar> < of_int (2 ^ 53)" using assms by simp
  then have "(of_int \<bar>\<lfloor>a\<rfloor>\<bar> :: rat) < of_int (2 ^ 53)" by simp
  then have "\<bar>\<lfloor>a\<rfloor>\<bar> < 2 ^ 53" by (simp only: of_int_less_iff)
  from toNumber_of_int [OF this] assms(1) show ?thesis by simp
qed

lemma whole_add: "a = of_int \<lfloor>a\<rfloor> \<Longrightarrow> b = of_int \<lfloor>b\<rfloor> \<Longrightarrow> a + b = of_int \<lfloor>a + b :: rat\<rfloor>"
  by (metis floor_of_int of_int_add)

lemma whole_minus: "a = of_int \<lfloor>a\<rfloor> \<Longrightarrow> - a = of_int \<lfloor>- a :: rat\<rfloor>"
  by (metis floor_of_int of_int_minus)

lemma numAdd_whole:
  assumes "a = of_int \<lfloor>a\<rfloor>" and "b = of_int \<lfloor>b\<rfloor>" and "\<bar>a + b\<bar> < 2 ^ 53"
  shows "numAdd (Finite a) (Finite b) = Finite (a + b)"
  using toNumber_whole_rat [OF whole_add [OF assms(1,2)] assms(3)] by simp

lemma numSub_whole:
  assumes "a = of_int \<lfloor>a\<rfloor>" and "b = of_int \<lfloor>b\<rfloor>" and "\<bar>a - b\<bar> < 2 ^ 53"
  shows "numSub (Finite a) (Finite b) = Finite (a - b)"
  using numAdd_whole [OF assms(1) whole_minus [OF assms(2)]] assms(3) by (simp add: numSub_def)

subsection \<open>The totals loops\<close>

lemma foldl_addEntry:
  "foldl addEntry (a, b) ts =
     (foldl numAdd a (map entry.amount (filter (\<lambda>t. entry.type t = ''IN'') ts)),
      foldl numAdd b (map entry.amount (filter (\<lambda>t. entry.type t \<noteq> ''IN'') ts)))"
  by (induction ts arbitrary: a b) simp_all

lemma sumEntries_Some: "sumEntries (Some ts) = (inAmounts ts, otherAmounts ts)"
  by (simp add: sumEntries_def foldl_addEntry inAmounts_def otherAmounts_def sumNumbers_def)

lemma sumEntries_eq:
  "sumEntries (ledger.entries l) = (inAmounts (entriesOf l), otherAmounts (entriesOf l))"
  by (cases "ledger.entries l")
     (simp_all add: sumEntries_Some entriesOf_def,
      simp add: sumEntries_def inAmounts_def otherAmounts_def sumNumbers_def)

lemma getBooks_totalIn:
  "map BookWithTotals.totalIn (getBooks (Some ls)) = map (inAmounts \<circ> entriesOf) ls"
  by (simp add: getBooks_def sumEntries_eq)

lemma getBooks_totalOut:
  "map BookWithTotals.totalOut (getBooks (Some ls)) = map (otherAmounts \<circ> entriesOf) ls"
  by (simp add: getBooks_def sumEntries_eq)

lemma ledgersLoop_eq:
  "ledgersLoop bid (a, b, bs) ls =
     (foldl numAdd a (map (inAmounts \<circ> entriesOf) ls),
      foldl numAdd b (map (otherAmounts \<circ> entriesOf) ls),
      bs @ map (\<lambda>book.
                 \<lparr>Book.id = ledger.id book,
                  Book.businessId = bid,
                  Book.name = ledger.name book,
                  Book.createdAt = ledger.created_at book,
                  BookWithTotals.totalIn = inAmounts (entriesOf book),
                  BookWithTotals.totalOut = otherAmounts (entriesOf book),
                  BookWithTotals.balance =
                    numSub (inAmounts (entriesOf book)) (otherAmounts (entriesOf book))\<rparr>) ls)"
  by (induction ls arbitrary: a b bs) (simp_all add: sumEntries_eq)

lemma foldl_numAdd_map:
  "foldl (\<lambda>sum b. numAdd sum (f b)) a xs = foldl numAdd a (map f xs)"
  by (induction xs arbitrary: a) simp_all

lemma sumNumbers_atLeastZero:
  "atLeastZero a \<Longrightarrow> list_all atLeastZero xs \<Longrightarrow> atLeastZero (foldl numAdd a xs)"
  by (induction xs arbitrary: a) (simp_all add: numAdd_atLeastZero)

lemma sumEntries_nonneg:
  assumes "nonNegative es"
  shows "atLeastZero (fst (sumEntries es)) \<and> atLeastZero (snd (sumEntries es))"
proof (cases es)
  case None
  then show ?thesis by (simp add: sumEntries_def)
next
  case (Some ts)
  with assms have a: "list_all (\<lambda>t. atLeastZero (entry.amount t)) ts"
    by (simp add: nonNegative_def)
  have "list_all atLeastZero (map entry.amount (filter P ts))" for P
    using a by (induction ts) simp_all
  then show ?thesis
    using Some by (simp add: sumEntries_def foldl_addEntry sumNumbers_atLeastZero)
qed

subsection \<open>Sums of whole amounts are exact\<close>

lemma wholeNumber_Finite: "wholeNumber x \<Longrightarrow> x = Finite (valueOf x)"
  by (cases x) simp_all

lemma magnitude_valueOf: "wholeNumber x \<Longrightarrow> magnitude x = \<bar>valueOf x\<bar>"
  by (cases x) simp_all

lemma magnitude_nonneg: "0 \<le> magnitude x"
  by (cases x) simp_all

lemma sum_magnitude_nonneg: "0 \<le> sum_list (map magnitude xs)"
  by (induction xs) (simp_all add: magnitude_nonneg)

lemma sum_magnitude_filter:
  "sum_list (map magnitude (filter P xs)) \<le> sum_list (map magnitude xs)"
  by (induction xs) (simp_all add: magnitude_nonneg add_increasing)

lemma abs_sum_valueOf:
  "list_all wholeNumber xs \<Longrightarrow> \<bar>sum_list (map valueOf xs)\<bar> \<le> sum_list (map magnitude xs)"
proof (induction xs)
  case Nil
  then show ?case by simp
next
  case (Cons x xs)
  then have "\<bar>valueOf x + sum_list (map valueOf xs)\<bar> \<le> \<bar>valueOf x\<bar> + sum_list (map magnitude xs)"
    by (simp add: abs_triangle_ineq [THEN order_trans])
  with Cons.prems show ?case by (simp add: magnitude_valueOf)
qed

lemma whole_sum_valueOf:
  "list_all wholeNumber xs \<Longrightarrow>
   sum_list (map valueOf xs) = of_int \<lfloor>sum_list (map valueOf xs)\<rfloor>"
proof (induction xs)
  case Nil
  then show ?case by simp
next
  case (Cons x xs)
  then have "valueOf x = of_int \<lfloor>valueOf x\<rfloor>" by (cases x) simp_all
  with Cons show ?case by (simp add: whole_add [symmetric])
qed

lemma foldl_numAdd_whole:
  assumes "list_all wholeNumber xs" and "s = of_int \<lfloor>s\<rfloor>"
    and "\<bar>s\<bar> + sum_list (map magnitude xs) < 2 ^ 53"
  shows "foldl numAdd (Finite s) xs = Finite (s + sum_list (map valueOf xs))"
  using assms
proof (induction xs arbitrary: s)
  case Nil
  then show ?case by simp
next
  case (Cons x xs)
  from Cons.prems(1) have x: "x = Finite (valueOf x)" "valueOf x = of_int \<lfloor>valueOf x\<rfloor>"
    "magnitude x = \<bar>valueOf x\<bar>"
    by (cases x; simp)+
  have n: "0 \<le> sum_list (map magnitude xs)" by (rule sum_magnitude_nonneg)
  have b: "\<bar>s + valueOf x\<bar> \<le> \<bar>s\<bar> + \<bar>valueOf x\<bar>" by (rule abs_triangle_ineq)
  with Cons.prems(3) x(3) n have lt: "\<bar>s + valueOf x\<bar> < 2 ^ 53" by simp
  have step: "numAdd (Finite s) x = Finite (s + valueOf x)"
    using numAdd_whole [OF Cons.prems(2) x(2) lt] x(1) by simp
  have "foldl numAdd (Finite (s + valueOf x)) xs
          = Finite (s + valueOf x + sum_list (map valueOf xs))"
  proof (rule Cons.IH)
    show "list_all wholeNumber xs" using Cons.prems(1) by simp
    show "s + valueOf x = of_int \<lfloor>s + valueOf x\<rfloor>"
      using whole_add [OF Cons.prems(2) x(2)] .
    show "\<bar>s + valueOf x\<bar> + sum_list (map magnitude xs) < 2 ^ 53"
      using b Cons.prems(3) x(3) by simp
  qed
  with step show ?case by (simp add: add.assoc)
qed

lemma sumNumbers_whole:
  assumes "safeWholeAmounts xs"
  shows "sumNumbers xs = Finite (sum_list (map valueOf xs))"
  using foldl_numAdd_whole [of xs 0] assms by (simp add: safeWholeAmounts_def sumNumbers_def)

lemma safeWholeAmounts_filter:
  assumes "safeWholeAmounts xs"
  shows "safeWholeAmounts (filter P xs)"
proof -
  have "list_all wholeNumber (filter P xs)"
    using assms by (simp add: safeWholeAmounts_def list_all_iff)
  moreover have "sum_list (map magnitude (filter P xs)) < 2 ^ 53"
    using sum_magnitude_filter [of P xs] assms by (simp add: safeWholeAmounts_def)
  ultimately show ?thesis by (simp add: safeWholeAmounts_def)
qed

lemma safeWholeAmounts_map_filter:
  assumes "safeWholeAmounts (map f xs)"
  shows "safeWholeAmounts (map f (filter P xs))"
proof -
  have "map f (filter P xs) = filter (\<lambda>a. True) (map f (filter P xs))" by simp
  have l: "list_all wholeNumber (map f (filter P xs))"
    using assms by (simp add: safeWholeAmounts_def list_all_iff)
  have "sum_list (map magnitude (map f (filter P xs))) \<le> sum_list (map magnitude (map f xs))"
    by (induction xs) (simp_all add: magnitude_nonneg add_increasing)
  with assms l show ?thesis by (simp add: safeWholeAmounts_def)
qed

lemma sum_list_split_filter:
  fixes f :: "'a \<Rightarrow> rat"
  shows "sum_list (map f (filter P xs)) + sum_list (map f (filter (\<lambda>x. \<not> P x) xs))
           = sum_list (map f xs)"
  by (induction xs) simp_all

text \<open>The totals of a list of entries with whole amounts are the exact sums.\<close>

lemma totals_whole:
  assumes "safeWholeAmounts (map entry.amount ts)"
  shows "inAmounts ts = Finite (inValue ts)" and "otherAmounts ts = Finite (otherValue ts)"
    and "inValue ts = of_int \<lfloor>inValue ts\<rfloor>" and "otherValue ts = of_int \<lfloor>otherValue ts\<rfloor>"
    and "inValue ts + otherValue ts = sum_list (map valueOf (map entry.amount ts))"
    and "\<bar>inValue ts\<bar> + \<bar>otherValue ts\<bar> \<le> sum_list (map magnitude (map entry.amount ts))"
proof -
  let ?P = "\<lambda>t. entry.type t = ''IN''"
  let ?I = "map entry.amount (filter ?P ts)"
  let ?O = "map entry.amount (filter (\<lambda>t. \<not> ?P t) ts)"
  have sI: "safeWholeAmounts ?I" and sO: "safeWholeAmounts ?O"
    using assms by (rule safeWholeAmounts_map_filter)+
  show "inAmounts ts = Finite (inValue ts)"
    using sumNumbers_whole [OF sI] by (simp add: inAmounts_def inValue_def)
  show "otherAmounts ts = Finite (otherValue ts)"
    using sumNumbers_whole [OF sO] by (simp add: otherAmounts_def otherValue_def)
  show "inValue ts = of_int \<lfloor>inValue ts\<rfloor>"
    unfolding inValue_def using sI by (intro whole_sum_valueOf) (simp add: safeWholeAmounts_def)
  show "otherValue ts = of_int \<lfloor>otherValue ts\<rfloor>"
    unfolding otherValue_def using sO by (intro whole_sum_valueOf) (simp add: safeWholeAmounts_def)
  show "inValue ts + otherValue ts = sum_list (map valueOf (map entry.amount ts))"
    using sum_list_split_filter [of "valueOf \<circ> entry.amount" ?P ts]
    by (simp add: comp_def inValue_def otherValue_def)
  have "\<bar>inValue ts\<bar> \<le> sum_list (map magnitude ?I)"
    unfolding inValue_def using sI by (intro abs_sum_valueOf) (simp add: safeWholeAmounts_def)
  moreover have "\<bar>otherValue ts\<bar> \<le> sum_list (map magnitude ?O)"
    unfolding otherValue_def using sO by (intro abs_sum_valueOf) (simp add: safeWholeAmounts_def)
  moreover have "sum_list (map magnitude ?I) + sum_list (map magnitude ?O)
                   = sum_list (map magnitude (map entry.amount ts))"
    using sum_list_split_filter [of "magnitude \<circ> entry.amount" ?P ts] by (simp add: comp_def)
  ultimately show "\<bar>inValue ts\<bar> + \<bar>otherValue ts\<bar>
                     \<le> sum_list (map magnitude (map entry.amount ts))"
    by linarith
qed

subsection \<open>The sort rearranges\<close>

lemma mset_insertSorted: "mset (insertSorted c x xs) = add_mset x (mset xs)"
  by (induction xs) simp_all

lemma mset_array_sort: "mset (array_sort c xs) = mset xs"
  by (induction xs) (simp_all add: array_sort_def mset_insertSorted)

lemma length_array_sort: "length (array_sort c xs) = length xs"
  by (metis mset_array_sort size_mset)

lemma set_insertSorted: "set (insertSorted c x ys) = insert x (set ys)"
  by (metis mset_insertSorted set_mset_add_mset_insert set_mset_mset)

lemma set_array_sort: "set (array_sort c xs) = set xs"
  by (metis mset_array_sort set_mset_mset)

lemma sum_list_array_sort:
  fixes f :: "'a \<Rightarrow> rat"
  shows "sum_list (map f (array_sort c xs)) = sum_list (map f xs)"
proof -
  have "mset (map f (array_sort c xs)) = mset (map f xs)"
    by (simp add: mset_array_sort)
  then show ?thesis by (metis sum_mset_sum_list)
qed

subsection \<open>The pass that attaches the running balance\<close>

lemma truncate_withBalance: "map Transaction.truncate (withBalance r xs) = xs"
  by (induction xs arbitrary: r)
     (simp_all add: Let_def Transaction.truncate_def Transaction.extend_def)

lemma length_withBalance: "length (withBalance r xs) = length xs"
  by (metis truncate_withBalance length_map)

lemma truncate_computeRunningBalances:
  "map Transaction.truncate (computeRunningBalances utc txs) = rev (sortedAsc utc txs)"
  by (simp add: computeRunningBalances_def rev_map [symmetric] truncate_withBalance)

text \<open>The exact value of the last running balance over whole amounts.\<close>

lemma withBalance_step_whole:
  assumes "wholeNumber (Transaction.amount tx)" and "r = of_int \<lfloor>r\<rfloor>"
    and "\<bar>r\<bar> + magnitude (Transaction.amount tx) < 2 ^ 53"
  shows "(if Transaction.type tx = TransactionType_IN then numAdd (Finite r) (Transaction.amount tx)
          else numSub (Finite r) (Transaction.amount tx)) = Finite (r + signedValue tx)"
    and "r + signedValue tx = of_int \<lfloor>r + signedValue tx\<rfloor>"
    and "\<bar>r + signedValue tx\<bar> \<le> \<bar>r\<bar> + magnitude (Transaction.amount tx)"
proof -
  obtain a where a: "Transaction.amount tx = Finite a" "a = of_int \<lfloor>a\<rfloor>"
    using assms(1) by (cases "Transaction.amount tx") simp_all
  have p: "\<bar>r + a\<bar> < 2 ^ 53" and m: "\<bar>r - a\<bar> < 2 ^ 53"
    using assms(3) a(1) by simp_all
  show "(if Transaction.type tx = TransactionType_IN then numAdd (Finite r) (Transaction.amount tx)
          else numSub (Finite r) (Transaction.amount tx)) = Finite (r + signedValue tx)"
    using numAdd_whole [OF assms(2) a(2) p] numSub_whole [OF assms(2) a(2) m] a(1)
    by (simp add: signedValue_def TransactionType_IN_def)
  show "r + signedValue tx = of_int \<lfloor>r + signedValue tx\<rfloor>"
    using whole_add [OF assms(2) a(2)] whole_add [OF assms(2) whole_minus [OF a(2)]] a(1)
    by (simp add: signedValue_def)
  show "\<bar>r + signedValue tx\<bar> \<le> \<bar>r\<bar> + magnitude (Transaction.amount tx)"
    using a(1) by (auto simp add: signedValue_def)
qed

lemma last_withBalance_whole:
  assumes "xs \<noteq> []" and "list_all (\<lambda>tx. wholeNumber (Transaction.amount tx)) xs"
    and "r = of_int \<lfloor>r\<rfloor>"
    and "\<bar>r\<bar> + sum_list (map (\<lambda>tx. magnitude (Transaction.amount tx)) xs) < 2 ^ 53"
  shows "runningBalance (last (withBalance (Finite r) xs))
           = Finite (r + sum_list (map signedValue xs))"
  using assms
proof (induction xs arbitrary: r)
  case Nil
  then show ?case by simp
next
  case (Cons x xs)
  have n: "0 \<le> sum_list (map (\<lambda>tx. magnitude (Transaction.amount tx)) xs)"
    by (induction xs) (simp_all add: magnitude_nonneg)
  have w: "wholeNumber (Transaction.amount x)" using Cons.prems(2) by simp
  have b: "\<bar>r\<bar> + magnitude (Transaction.amount x) < 2 ^ 53"
    using Cons.prems(4) n by simp
  note st = withBalance_step_whole [OF w Cons.prems(3) b]
  show ?case
  proof (cases "xs = []")
    case True
    then show ?thesis using st(1) by (simp add: Let_def Transaction.extend_def)
  next
    case False
    then have ne: "withBalance r' xs \<noteq> []" for r'
      by (metis length_withBalance length_0_conv)
    have "runningBalance (last (withBalance (Finite (r + signedValue x)) xs))
            = Finite (r + signedValue x + sum_list (map signedValue xs))"
    proof (rule Cons.IH [OF False])
      show "list_all (\<lambda>tx. wholeNumber (Transaction.amount tx)) xs"
        using Cons.prems(2) by simp
      show "r + signedValue x = of_int \<lfloor>r + signedValue x\<rfloor>" by (rule st(2))
      show "\<bar>r + signedValue x\<bar> + sum_list (map (\<lambda>tx. magnitude (Transaction.amount tx)) xs)
              < 2 ^ 53"
        using st(3) Cons.prems(4) by simp
    qed
    then show ?thesis using st(1) ne by (simp add: Let_def add.assoc)
  qed
qed

lemma signedValue_sum:
  "sum_list (map signedValue xs) = inValue (map entryOf xs) - otherValue (map entryOf xs)"
  by (induction xs) (simp_all add: signedValue_def entryOf_def inValue_def otherValue_def)

subsection \<open>The computation in the store\<close>

lemma annotates_withBalance: "list_all2 annotates (withBalance r xs) xs"
  by (induction xs arbitrary: r) (simp_all add: Let_def annotates_def Transaction.extend_def)

lemma store_run:
  assumes "txs < length s" and "s ! txs = Transactions xs"
  shows "computeRunningBalances_store utc txs s
           = Some (Suc (length s),
                   s @ [Transactions (sortedAsc utc xs), WithBalances (computeRunningBalances utc xs)])"
  using assms
  by (simp add: computeRunningBalances_store_def spread_def sort_in_place_def map_withBalance_def
        reverse_in_place_def transactionsAt_def withBalancesAt_def alloc_def nth_append
        sortedAsc_def computeRunningBalances_def list_update_append)

subsection \<open>The sort orders by the key of its comparator\<close>

lemma sorted_insertSorted:
  assumes "\<And>y. y \<in> set ys \<Longrightarrow> sortCompare c x y = k x - k y"
    and "sorted_wrt (\<lambda>a b. k a \<le> k b) ys"
  shows "sorted_wrt (\<lambda>a b. (k a :: int) \<le> k b) (insertSorted c x ys)"
  using assms
proof (induction ys)
  case Nil
  then show ?case by simp
next
  case (Cons y ys)
  show ?case
  proof (cases "sortCompare c x y \<le> 0")
    case True
    with Cons.prems(1) [of y] have "k x \<le> k y" by simp
    with Cons.prems(2) True show ?thesis by fastforce
  next
    case False
    with Cons.prems(1) [of y] have "k y \<le> k x" by simp
    moreover have "sorted_wrt (\<lambda>a b. k a \<le> k b) (insertSorted c x ys)"
      using Cons.prems by (intro Cons.IH) simp_all
    ultimately show ?thesis
      using False Cons.prems(2) by (auto simp: set_insertSorted)
  qed
qed

lemma sorted_array_sort:
  assumes "\<And>x y. x \<in> set xs \<Longrightarrow> y \<in> set xs \<Longrightarrow> sortCompare c x y = k x - k y"
  shows "sorted_wrt (\<lambda>a b. (k a :: int) \<le> k b) (array_sort c xs)"
  using assms
proof (induction xs)
  case Nil
  then show ?case by (simp add: array_sort_def)
next
  case (Cons x xs)
  have "sorted_wrt (\<lambda>a b. k a \<le> k b) (array_sort c xs)"
    using Cons.prems by (intro Cons.IH) simp_all
  moreover have "sortCompare c x y = k x - k y" if "y \<in> set (array_sort c xs)" for y
    using that Cons.prems by (simp add: set_array_sort)
  ultimately have "sorted_wrt (\<lambda>a b. k a \<le> k b) (insertSorted c x (array_sort c xs))"
    by (intro sorted_insertSorted)
  then show ?case by (simp add: array_sort_def)
qed

subsection \<open>The summary of a business\<close>

lemma toBusinessWithTotals_totals:
  "BusinessWithTotals.totalIn (toBusinessWithTotals (b\<lparr>project.ledgers := Some ls\<rparr>))
     = sumNumbers (map (inAmounts \<circ> entriesOf) ls)"
  "BusinessWithTotals.totalOut (toBusinessWithTotals (b\<lparr>project.ledgers := Some ls\<rparr>))
     = sumNumbers (map (otherAmounts \<circ> entriesOf) ls)"
  by (simp_all add: toBusinessWithTotals_def ledgersLoop_eq sumNumbers_def)

lemma markBusinessId:
  "map (\<lambda>bk. bk\<lparr>Book.businessId := bid\<rparr>) (getBooks (Some ls))
     = map (\<lambda>book.
              \<lparr>Book.id = ledger.id book,
               Book.businessId = bid,
               Book.name = ledger.name book,
               Book.createdAt = ledger.created_at book,
               BookWithTotals.totalIn = inAmounts (entriesOf book),
               BookWithTotals.totalOut = otherAmounts (entriesOf book),
               BookWithTotals.balance =
                 numSub (inAmounts (entriesOf book)) (otherAmounts (entriesOf book))\<rparr>) ls"
  by (simp add: getBooks_def sumEntries_eq)

lemma sorted_newestFirst:
  "sorted_wrt (\<lambda>a c. Book.createdAt c \<le> Book.createdAt a) (array_sort newestFirst bs)"
proof -
  have "sorted_wrt (\<lambda>a c. - Book.createdAt a \<le> - Book.createdAt c) (array_sort newestFirst bs)"
    by (rule sorted_array_sort) (simp add: sortCompare_def newestFirst_def)
  then show ?thesis by simp
qed

lemma toBusinessWithTotals_summary:
  "Business.id (toBusinessWithTotals b) = project.id b
   \<and> sumsItsBooks (toBusinessWithTotals b) (getBooks (Some (ledgersOf b)))
   \<and> BusinessWithTotals.bookCount (toBusinessWithTotals b) = length (ledgersOf b)
   \<and> (\<exists>bs. BusinessWithTotals.books (toBusinessWithTotals b) = Some bs
          \<and> mset bs = mset (map (\<lambda>bk. bk\<lparr>Book.businessId := project.id b\<rparr>)
                               (getBooks (Some (ledgersOf b))))
          \<and> sorted_wrt (\<lambda>a c. Book.createdAt c \<le> Book.createdAt a) bs)"
proof -
  let ?s = "toBusinessWithTotals b"
  let ?ls = "ledgersOf b"
  let ?bs = "map (\<lambda>bk. bk\<lparr>Book.businessId := project.id b\<rparr>) (getBooks (Some ?ls))"
  have i: "Business.id ?s = project.id b"
    by (simp add: toBusinessWithTotals_def split: prod.splits)
  have tin: "BusinessWithTotals.totalIn ?s = sumNumbers (map (inAmounts \<circ> entriesOf) ?ls)"
    by (cases "project.ledgers b")
       (simp_all add: toBusinessWithTotals_def ledgersLoop_eq sumNumbers_def ledgersOf_def)
  have tout: "BusinessWithTotals.totalOut ?s = sumNumbers (map (otherAmounts \<circ> entriesOf) ?ls)"
    by (cases "project.ledgers b")
       (simp_all add: toBusinessWithTotals_def ledgersLoop_eq sumNumbers_def ledgersOf_def)
  have bal: "BusinessWithTotals.balance ?s
               = numSub (BusinessWithTotals.totalIn ?s) (BusinessWithTotals.totalOut ?s)"
    by (simp add: toBusinessWithTotals_def split: prod.splits)
  have cnt: "BusinessWithTotals.bookCount ?s = length ?ls"
    by (cases "project.ledgers b")
       (simp_all add: toBusinessWithTotals_def ledgersLoop_eq ledgersOf_def)
  have bks: "BusinessWithTotals.books ?s = Some (array_sort newestFirst ?bs)"
    unfolding markBusinessId
    by (cases "project.ledgers b")
       (simp_all add: toBusinessWithTotals_def ledgersLoop_eq ledgersOf_def array_sort_def)
  have g: "length (getBooks (Some ?ls)) = length ?ls" by (simp add: getBooks_def)
  have s: "sumsItsBooks ?s (getBooks (Some ?ls))"
    unfolding sumsItsBooks_def getBooks_totalIn getBooks_totalOut
    using tin tout bal cnt g by simp
  have m: "mset (array_sort newestFirst ?bs) = mset ?bs" by (rule mset_array_sort)
  from i s cnt bks m sorted_newestFirst [of ?bs] show ?thesis by blast
qed

lemma getBusinesses_map:
  "getBusinesses ownedData sharedData
     = map toBusinessWithTotals (allBusinesses ownedData sharedData)"
  by (simp add: getBusinesses_def allBusinesses_def Let_def)

lemma loadData_sums: "sumsItsBooks (loadData bRaw booksData) booksData"
  by (simp add: sumsItsBooks_def loadData_def Business.extend_def Let_def sumNumbers_def
        foldl_numAdd_map [of BookWithTotals.totalIn] foldl_numAdd_map [of BookWithTotals.totalOut])

subsection \<open>Whole amounts over the ledgers of a business\<close>

lemma safeWholeAmounts_append:
  "safeWholeAmounts (xs @ ys) \<Longrightarrow> safeWholeAmounts xs \<and> safeWholeAmounts ys"
proof -
  assume a: "safeWholeAmounts (xs @ ys)"
  have "0 \<le> sum_list (map magnitude xs)" "0 \<le> sum_list (map magnitude ys)"
    by (rule sum_magnitude_nonneg)+
  with a show ?thesis by (simp add: safeWholeAmounts_def)
qed

lemma inValue_append: "inValue (xs @ ys) = inValue xs + inValue ys"
  by (simp add: inValue_def)

lemma otherValue_append: "otherValue (xs @ ys) = otherValue xs + otherValue ys"
  by (simp add: otherValue_def)

lemma ledgers_whole:
  assumes "safeWholeAmounts (map entry.amount (concat (map entriesOf ls)))"
  shows "list_all wholeNumber (map (inAmounts \<circ> entriesOf) ls)
       \<and> list_all wholeNumber (map (otherAmounts \<circ> entriesOf) ls)
       \<and> sum_list (map valueOf (map (inAmounts \<circ> entriesOf) ls))
           = inValue (concat (map entriesOf ls))
       \<and> sum_list (map valueOf (map (otherAmounts \<circ> entriesOf) ls))
           = otherValue (concat (map entriesOf ls))
       \<and> sum_list (map magnitude (map (inAmounts \<circ> entriesOf) ls))
           + sum_list (map magnitude (map (otherAmounts \<circ> entriesOf) ls))
           \<le> sum_list (map magnitude (map entry.amount (concat (map entriesOf ls))))"
  using assms
proof (induction ls)
  case Nil
  then show ?case by (simp add: inValue_def otherValue_def)
next
  case (Cons l ls)
  from Cons.prems have s: "safeWholeAmounts (map entry.amount (entriesOf l))"
    and r: "safeWholeAmounts (map entry.amount (concat (map entriesOf ls)))"
    using safeWholeAmounts_append
      [of "map entry.amount (entriesOf l)" "map entry.amount (concat (map entriesOf ls))"]
    by simp_all
  note t = totals_whole [OF s]
  from Cons.IH [OF r] t show ?case
    by (simp add: inValue_append otherValue_append)
qed

lemma business_totals_whole:
  assumes "safeWholeAmounts (map entry.amount (concat (map entriesOf ls)))"
  shows "sumNumbers (map (inAmounts \<circ> entriesOf) ls) = Finite (inValue (concat (map entriesOf ls)))"
    and "sumNumbers (map (otherAmounts \<circ> entriesOf) ls)
           = Finite (otherValue (concat (map entriesOf ls)))"
proof -
  note w = ledgers_whole [OF assms]
  have n: "0 \<le> sum_list (map magnitude (map (inAmounts \<circ> entriesOf) ls))"
    "0 \<le> sum_list (map magnitude (map (otherAmounts \<circ> entriesOf) ls))"
    by (rule sum_magnitude_nonneg)+
  have b: "sum_list (map magnitude (map entry.amount (concat (map entriesOf ls)))) < 2 ^ 53"
    using assms by (simp add: safeWholeAmounts_def)
  have "safeWholeAmounts (map (inAmounts \<circ> entriesOf) ls)"
    unfolding safeWholeAmounts_def using w n b by linarith
  from sumNumbers_whole [OF this] w
  show "sumNumbers (map (inAmounts \<circ> entriesOf) ls) = Finite (inValue (concat (map entriesOf ls)))"
    by simp
  have "safeWholeAmounts (map (otherAmounts \<circ> entriesOf) ls)"
    unfolding safeWholeAmounts_def using w n b by linarith
  from sumNumbers_whole [OF this] w
  show "sumNumbers (map (otherAmounts \<circ> entriesOf) ls)
          = Finite (otherValue (concat (map entriesOf ls)))"
    by simp
qed

text \<open>With whole amounts the two totals add up to the sum of all the amounts.\<close>

lemma in_plus_other_whole:
  assumes "safeWholeAmounts (map entry.amount ts)"
  shows "numAdd (Finite (inValue ts)) (Finite (otherValue ts)) = sumNumbers (map entry.amount ts)"
proof -
  note t = totals_whole [OF assms]
  have "\<bar>inValue ts + otherValue ts\<bar> \<le> \<bar>inValue ts\<bar> + \<bar>otherValue ts\<bar>" by simp
  with t(6) assms have "\<bar>inValue ts + otherValue ts\<bar> < 2 ^ 53"
    by (simp add: safeWholeAmounts_def)
  from numAdd_whole [OF t(3,4) this] sumNumbers_whole [OF assms] t(5) show ?thesis by simp
qed

lemma in_minus_other_whole:
  assumes "safeWholeAmounts (map entry.amount ts)"
  shows "numSub (Finite (inValue ts)) (Finite (otherValue ts)) = Finite (inValue ts - otherValue ts)"
proof -
  note t = totals_whole [OF assms]
  have "\<bar>inValue ts - otherValue ts\<bar> \<le> \<bar>inValue ts\<bar> + \<bar>otherValue ts\<bar>" by simp
  with t(6) assms have "\<bar>inValue ts - otherValue ts\<bar> < 2 ^ 53"
    by (simp add: safeWholeAmounts_def)
  from numSub_whole [OF t(3,4) this] show ?thesis .
qed

subsection \<open>The doubles of the examples\<close>

text \<open>
  The doubles that the literals 0.1, 0.2 and 1.1 denote, and the sums and differences of
  the examples, each rounded as the addition rounds it.
\<close>

lemma double_0_1: "toNumber (1 / 10) = Finite (3602879701896397 / 36028797018963968)"
  using toNumber_normal [of 56 "1 / 10"]
  by (simp add: roundHalfEven_def Let_def floor_rat_divide_numeral)

lemma double_0_2: "toNumber (1 / 5) = Finite (3602879701896397 / 18014398509481984)"
  using toNumber_normal [of 55 "1 / 5"]
  by (simp add: roundHalfEven_def Let_def floor_rat_divide_numeral)

lemma double_1_1: "toNumber (11 / 10) = Finite (2476979795053773 / 2251799813685248)"
  using toNumber_normal [of 52 "11 / 10"]
  by (simp add: roundHalfEven_def Let_def floor_rat_divide_numeral)

lemma add_0_and_0_1:
  "numAdd (Finite 0) (Finite (3602879701896397 / 36028797018963968))
     = Finite (3602879701896397 / 36028797018963968)"
  using toNumber_normal [of 56 "3602879701896397 / 36028797018963968"]
  by (simp add: roundHalfEven_def Let_def floor_rat_divide_numeral)

lemma add_0_and_0_2:
  "numAdd (Finite 0) (Finite (3602879701896397 / 18014398509481984))
     = Finite (3602879701896397 / 18014398509481984)"
  using toNumber_normal [of 55 "3602879701896397 / 18014398509481984"]
  by (simp add: roundHalfEven_def Let_def floor_rat_divide_numeral)

lemma sub_0_1_from_0_1:
  "numSub (Finite (3602879701896397 / 36028797018963968))
          (Finite (3602879701896397 / 36028797018963968)) = Finite 0"
  by (simp add: numSub_def toNumber_0)

lemma add_0_1_and_0_2:
  "numAdd (Finite (3602879701896397 / 36028797018963968))
          (Finite (3602879701896397 / 18014398509481984))
     = Finite (1351079888211149 / 4503599627370496)"
  using toNumber_normal
    [of 54 "3602879701896397 / 36028797018963968 + 3602879701896397 / 18014398509481984"]
  by (simp add: roundHalfEven_def Let_def floor_rat_divide_numeral)

lemma sub_0_1_from_0_3:
  "numSub (Finite (1351079888211149 / 4503599627370496))
          (Finite (3602879701896397 / 36028797018963968))
     = Finite (7205759403792795 / 36028797018963968)"
  using toNumber_normal
    [of 55 "1351079888211149 / 4503599627370496 - 3602879701896397 / 36028797018963968"]
  by (simp add: numSub_def roundHalfEven_def Let_def floor_rat_divide_numeral)

lemma add_0_1_and_1_1:
  "numAdd (Finite (3602879701896397 / 36028797018963968))
          (Finite (2476979795053773 / 2251799813685248))
     = Finite (1351079888211149 / 1125899906842624)"
  using toNumber_normal
    [of 52 "3602879701896397 / 36028797018963968 + 2476979795053773 / 2251799813685248"]
  by (simp add: roundHalfEven_def Let_def floor_rat_divide_numeral)

lemma add_1_2_and_0_1:
  "numAdd (Finite (1351079888211149 / 1125899906842624))
          (Finite (3602879701896397 / 36028797018963968))
     = Finite (2927339757790823 / 2251799813685248)"
  using toNumber_normal
    [of 52 "1351079888211149 / 1125899906842624 + 3602879701896397 / 36028797018963968"]
  by (simp add: roundHalfEven_def Let_def floor_rat_divide_numeral)

lemma add_0_1_and_0_1:
  "numAdd (Finite (3602879701896397 / 36028797018963968))
          (Finite (3602879701896397 / 36028797018963968))
     = Finite (3602879701896397 / 18014398509481984)"
  using toNumber_normal
    [of 55 "3602879701896397 / 36028797018963968 + 3602879701896397 / 36028797018963968"]
  by (simp add: roundHalfEven_def Let_def floor_rat_divide_numeral)

lemma add_0_2_and_1_1:
  "numAdd (Finite (3602879701896397 / 18014398509481984))
          (Finite (2476979795053773 / 2251799813685248))
     = Finite (5854679515581645 / 4503599627370496)"
  using toNumber_normal
    [of 52 "3602879701896397 / 18014398509481984 + 2476979795053773 / 2251799813685248"]
  by (simp add: roundHalfEven_def Let_def floor_rat_divide_numeral)

lemmas doubles =
  double_0_1 double_0_2 double_1_1 add_0_and_0_1 add_0_and_0_2 sub_0_1_from_0_1
  add_0_1_and_0_2 sub_0_1_from_0_3 add_0_1_and_1_1 add_1_2_and_0_1 add_0_1_and_0_1
  add_0_2_and_1_1


lemma sorted_scenario1:
  "sortedAsc utcIndia scenario1 =
     [mkTx ''a'' ''IN'' (Finite 100) ''2024-01-01'' ''09:00'',
      mkTx ''b'' ''OUT'' (Finite 40) ''2024-01-01'' ''10:00'',
      mkTx ''c'' ''IN'' (Finite 10) ''2024-01-02'' ''08:00'']"
  by code_simp

lemma sorted_scenario1_negativeOut:
  "sortedAsc utcIndia (scenario1 @ [negativeOut]) =
     [mkTx ''a'' ''IN'' (Finite 100) ''2024-01-01'' ''09:00'',
      mkTx ''b'' ''OUT'' (Finite 40) ''2024-01-01'' ''10:00'',
      mkTx ''c'' ''IN'' (Finite 10) ''2024-01-02'' ''08:00'',
      mkTx ''x'' ''OUT'' (Finite (- 5)) ''2024-01-03'' ''09:00'']"
  by code_simp

lemma sorted_same_day:
  "sortedAsc utcIndia
     [mkTx ''a'' ''IN'' x ''2024-01-01'' ''09:00'',
      mkTx ''b'' ''OUT'' y ''2024-01-01'' ''10:00'',
      mkTx ''c'' ''IN'' z ''2024-01-01'' ''11:00''] =
     [mkTx ''a'' ''IN'' x ''2024-01-01'' ''09:00'',
      mkTx ''b'' ''OUT'' y ''2024-01-01'' ''10:00'',
      mkTx ''c'' ''IN'' z ''2024-01-01'' ''11:00'']"
  by code_simp

lemma running_scenario1:
  "map runningBalance (computeRunningBalances utcIndia scenario1)
     = [Finite 70, Finite 60, Finite 100]"
  unfolding computeRunningBalances_def sorted_scenario1
  by (simp add: mkTx_def Let_def numSub_def toNumber_whole TransactionType_IN_def
        Transaction.extend_def)

lemma totals_scenario1:
  "sumEntries (Some (map entryOf scenario1)) = (Finite 110, Finite 40)"
  by (simp add: sumEntries_def scenario1_def mkTx_def entryOf_def toNumber_whole)

lemma safe_scenario1: "safeWholeAmounts (map Transaction.amount scenario1)"
  by (simp add: safeWholeAmounts_def scenario1_def mkTx_def)

subsection \<open>Decimal digits\<close>

lemma digit_cases: "d < 10 \<Longrightarrow> d \<in> {0, 1, 2, 3, 4, 5, 6, 7, 8, 9::nat}"
  by auto

lemma digitVal_digitChar: "d < 10 \<Longrightarrow> digitVal (digitChar d) = Some d"
  using digit_cases [of d] by (auto simp: digitVal_def digitChar_def Let_def)

lemma digitChar_in: "d < 10 \<Longrightarrow> digitChar d \<in> set ''0123456789''"
  using digit_cases [of d] by (auto simp: digitChar_def)

lemma digitsVal_snoc:
  "digitsVal acc (cs @ [c]) =
     (case digitsVal acc cs of None \<Rightarrow> None
      | Some v \<Rightarrow> (case digitVal c of None \<Rightarrow> None | Some d \<Rightarrow> Some (10 * v + d)))"
  by (induction cs arbitrary: acc) (simp_all split: option.splits)

lemma digitsVal_natToString: "digitsVal 0 (natToString n) = Some n"
proof (induction n rule: natToString.induct)
  case (1 n)
  show ?case
  proof (cases "n < 10")
    case True
    then show ?thesis by (simp add: natToString.simps [of n] digitVal_digitChar)
  next
    case False
    with 1 show ?thesis
      by (simp add: natToString.simps [of n] digitsVal_snoc digitVal_digitChar)
  qed
qed

lemma digits_natToString: "list_all (\<lambda>c. c \<in> set ''0123456789'') (natToString n)"
proof (induction n rule: natToString.induct)
  case (1 n)
  show ?case
  proof (cases "n < 10")
    case True
    then show ?thesis using digitChar_in [of n] by (simp add: natToString.simps [of n])
  next
    case False
    with 1 digitChar_in [of "n mod 10"] show ?thesis
      by (simp add: natToString.simps [of n])
  qed
qed

lemma length_natToString:
  "10 ^ k \<le> n \<Longrightarrow> n < 10 ^ Suc k \<Longrightarrow> length (natToString n) = Suc k"
proof (induction k arbitrary: n)
  case 0
  then show ?case by (simp add: natToString.simps [of n])
next
  case (Suc k)
  have "(10::nat) \<le> 10 ^ Suc k" by simp
  with Suc.prems have ge: "10 \<le> n" by linarith
  from Suc.prems have "10 * 10 ^ k \<le> n" "n < 10 * 10 ^ Suc k" by simp_all
  then have "10 ^ k \<le> n div 10" "n div 10 < 10 ^ Suc k"
    by (simp_all add: less_mult_imp_div_less mult.commute less_eq_div_iff_mult_less_eq)
  from Suc.IH [OF this] ge show ?case
    by (simp add: natToString.simps [of n])
qed


lemma digitVal_less_10: "digitVal c = Some d \<Longrightarrow> d < 10"
  by (auto simp: digitVal_def Let_def split: if_splits)

lemma digitVal_order:
  assumes "digitVal a = Some x" and "digitVal b = Some y"
  shows "(a < b \<longleftrightarrow> x < y) \<and> (a = b \<longleftrightarrow> x = y)"
proof -
  from assms have x: "of_char a = x + (48::nat)" and y: "of_char b = y + (48::nat)"
    by (auto simp: digitVal_def Let_def split: if_splits)
  have "a = b \<longleftrightarrow> (of_char a :: nat) = of_char b"
    by simp
  with x y show ?thesis
    by (simp add: less_char_def)
qed

lemma digitsVal_acc:
  "digitsVal acc cs = map_option (\<lambda>v. acc * 10 ^ length cs + v) (digitsVal 0 cs)"
proof (induction cs arbitrary: acc)
  case Nil
  then show ?case by simp
next
  case (Cons c cs)
  show ?case
  proof (cases "digitVal c")
    case None
    then show ?thesis by simp
  next
    case (Some d)
    show ?thesis
      using Cons.IH [of "10 * acc + d"] Cons.IH [of d] Some
      by (cases "digitsVal 0 cs") (simp_all add: algebra_simps)
  qed
qed

lemma digitsVal_Cons:
  "digitsVal 0 (c # cs) =
     (case digitVal c of
        None \<Rightarrow> None
      | Some d \<Rightarrow> map_option (\<lambda>v. d * 10 ^ length cs + v) (digitsVal 0 cs))"
proof (cases "digitVal c")
  case None
  then show ?thesis by simp
next
  case (Some d)
  then show ?thesis using digitsVal_acc [of d cs] by simp
qed

lemma digitsVal_ConsE:
  assumes "digitsVal 0 (c # cs) = Some v"
  obtains d w where "digitVal c = Some d" and "digitsVal 0 cs = Some w"
    and "v = d * 10 ^ length cs + w"
proof (cases "digitVal c")
  case None
  with assms show ?thesis by simp
next
  case (Some d)
  show ?thesis
  proof (cases "digitsVal 0 cs")
    case None
    with assms Some show ?thesis by (simp add: digitsVal_Cons del: digitsVal.simps)
  next
    case w: (Some w)
    with assms Some have "v = d * 10 ^ length cs + w"
      by (simp add: digitsVal_Cons del: digitsVal.simps)
    with Some w that show ?thesis by blast
  qed
qed

lemma place_value_less:
  fixes d b w p :: nat
  assumes "d < b" and "w < p"
  shows "d * p + w < b * p"
proof -
  have "d * p + w < Suc d * p" using assms(2) by simp
  also have "Suc d * p \<le> b * p"
    using assms(1) by (intro mult_le_mono1) simp
  finally show ?thesis .
qed

lemma digitsVal_bound: "digitsVal 0 cs = Some v \<Longrightarrow> v < 10 ^ length cs"
proof (induction cs arbitrary: v)
  case Nil
  then show ?case by simp
next
  case (Cons c cs)
  from Cons.prems obtain d w where d: "digitVal c = Some d" and w: "digitsVal 0 cs = Some w"
    and v: "v = d * 10 ^ length cs + w"
    by (rule digitsVal_ConsE)
  have "d * 10 ^ length cs + w < 10 * 10 ^ length cs"
    using digitVal_less_10 [OF d] Cons.IH [OF w] by (rule place_value_less)
  with v show ?case by simp
qed

lemma digits_order:
  "length xs = length ys \<Longrightarrow> digitsVal 0 xs = Some v \<Longrightarrow> digitsVal 0 ys = Some w \<Longrightarrow>
   (xs < ys \<longleftrightarrow> v < w) \<and> (xs = ys \<longleftrightarrow> v = w)"
proof (induction xs ys arbitrary: v w rule: list_induct2)
  case Nil
  then show ?case by simp
next
  case (Cons x xs y ys)
  from Cons.prems(1) obtain a v' where a: "digitVal x = Some a" and v': "digitsVal 0 xs = Some v'"
    and v: "v = a * 10 ^ length xs + v'"
    by (rule digitsVal_ConsE)
  from Cons.prems(2) obtain b w' where b: "digitVal y = Some b" and w': "digitsVal 0 ys = Some w'"
    and w: "w = b * 10 ^ length ys + w'"
    by (rule digitsVal_ConsE)
  note ih = Cons.IH [OF v' w']
  note o = digitVal_order [OF a b]
  have bv: "v' < 10 ^ length xs" and bw: "w' < 10 ^ length xs"
    using digitsVal_bound [OF v'] digitsVal_bound [OF w'] Cons.hyps by simp_all
  have lt: "a * 10 ^ length xs + v' < b * 10 ^ length xs + w'" if "a < b"
    using place_value_less [OF that bv] by simp
  have gt: "b * 10 ^ length xs + w' < a * 10 ^ length xs + v'" if "b < a"
    using place_value_less [OF that bw] by simp
  have e: "length ys = length xs" using Cons.hyps by simp
  consider "a < b" | "a = b" | "b < a" by linarith
  then show ?case
  proof cases
    case 1
    with lt [OF 1] o show ?thesis unfolding v w e by simp
  next
    case 2
    with o ih show ?thesis unfolding v w e by simp
  next
    case 3
    with gt [OF 3] o show ?thesis unfolding v w e by auto
  qed
qed

lemma append_less_same_length:
  fixes a c :: "'a::linorder list"
  shows "length a = length c \<Longrightarrow> (a @ b < c @ d \<longleftrightarrow> a < c \<or> a = c \<and> b < d)"
  by (induction a c rule: list_induct2) auto


subsection \<open>The calendar\<close>

lemma div_next:
  fixes a k :: int
  assumes "1 < k"
  shows "(a + 1) div k = a div k + (if (a + 1) mod k = 0 then 1 else 0)"
proof -
  have r: "0 \<le> a mod k" "a mod k < k" using assms by simp_all
  have one: "(1::int) div k = 0" "(1::int) mod k = 1" using assms by simp_all
  have d: "(a + 1) div k = a div k + (a mod k + 1) div k"
    using div_add1_eq [of a 1 k] one by simp
  have m: "(a + 1) mod k = (a mod k + 1) mod k"
    by (simp add: mod_add_left_eq)
  show ?thesis
  proof (cases "a mod k + 1 = k")
    case True
    then show ?thesis using d m assms by simp
  next
    case False
    with r have lt: "a mod k + 1 < k" by linarith
    then have "(a mod k + 1) div k = 0" "(a mod k + 1) mod k = a mod k + 1"
      using r by simp_all
    with d m r show ?thesis by simp
  qed
qed

lemma shift_mod: "((y::int) - k * q) mod k = y mod k"
proof -
  have "(y - k * q) mod k = (y + k * (- q)) mod k" by simp
  also have "\<dots> = y mod k" by (rule mod_mult_self2)
  finally show ?thesis .
qed

lemma mod4: "((y::int) - 1969 + 1) mod 4 = 0 \<longleftrightarrow> y mod 4 = 0"
  using shift_mod [of y 4 492] by simp

lemma mod100: "((y::int) - 1901 + 1) mod 100 = 0 \<longleftrightarrow> y mod 100 = 0"
  using shift_mod [of y 100 19] by simp

lemma mod400: "((y::int) - 1601 + 1) mod 400 = 0 \<longleftrightarrow> y mod 400 = 0"
  using shift_mod [of y 400 4] by simp

lemma DayFromYear_next: "DayFromYear (y + 1) = DayFromYear y + DaysInYear y"
proof -
  have a: "(y + 1 - 1969) div 4 = (y - 1969) div 4 + (if y mod 4 = 0 then 1 else 0)"
    using div_next [of 4 "y - 1969"] mod4 [of y] by (simp add: algebra_simps)
  have b: "(y + 1 - 1901) div 100 = (y - 1901) div 100 + (if y mod 100 = 0 then 1 else 0)"
    using div_next [of 100 "y - 1901"] mod100 [of y] by (simp add: algebra_simps)
  have c: "(y + 1 - 1601) div 400 = (y - 1601) div 400 + (if y mod 400 = 0 then 1 else 0)"
    using div_next [of 400 "y - 1601"] mod400 [of y] by (simp add: algebra_simps)
  have d4: "y mod 4 = 0" if "y mod 100 = 0"
  proof -
    from that have "100 dvd y" by (simp add: mod_eq_0_iff_dvd)
    moreover have "(4::int) dvd 100" by simp
    ultimately have "4 dvd y" by (rule dvd_trans [rotated])
    then show ?thesis by (simp add: mod_eq_0_iff_dvd)
  qed
  have d100: "y mod 100 = 0" if "y mod 400 = 0"
  proof -
    from that have "400 dvd y" by (simp add: mod_eq_0_iff_dvd)
    moreover have "(100::int) dvd 400" by simp
    ultimately have "100 dvd y" by (rule dvd_trans [rotated])
    then show ?thesis by (simp add: mod_eq_0_iff_dvd)
  qed
  show ?thesis
    unfolding DayFromYear_def DaysInYear_def a b c using d4 d100 by auto
qed

lemma DaysInYear_leap: "DaysInYear y = 365 + InLeapYear y"
  by (simp add: InLeapYear_def DaysInYear_def)

lemma InLeapYear_range: "InLeapYear y = 0 \<or> InLeapYear y = 1"
  by (simp add: InLeapYear_def)

lemma DayFromYear_later:
  "DayFromYear y + DaysInYear y \<le> DayFromYear (y + 1 + int k)"
proof (induction k)
  case 0
  then show ?case by (simp add: DayFromYear_next)
next
  case (Suc k)
  have "DayFromYear (y + 1 + int k) \<le> DayFromYear (y + 1 + int k + 1)"
    using InLeapYear_range [of "y + 1 + int k"] DayFromYear_next [of "y + 1 + int k"]
      DaysInYear_leap [of "y + 1 + int k"]
    by linarith
  moreover have "y + 1 + int (Suc k) = y + 1 + int k + 1" by simp
  ultimately show ?case using Suc by (simp only:) 
qed

lemma DayFromYear_less:
  assumes "y < y'"
  shows "DayFromYear y + DaysInYear y \<le> DayFromYear y'"
proof -
  from assms have "y' = y + 1 + int (nat (y' - y - 1))" by simp
  then show ?thesis using DayFromYear_later [of y "nat (y' - y - 1)"] by simp
qed

lemma monthStart_next:
  assumes "m < 11"
  shows "monthStart y (Suc m) = monthStart y m + int (DaysInMonth y m)"
proof -
  from assms have "m \<in> {0, 1, 2, 3, 4, 5, 6, 7, 8, 9, 10::nat}" by simp arith
  then show ?thesis
    using InLeapYear_range [of y]
    by (auto simp: monthStart_def DaysInMonth_def Let_def)
qed

lemma monthStart_last: "monthStart y 11 + int (DaysInMonth y 11) = DaysInYear y"
  by (simp add: monthStart_def DaysInMonth_def Let_def DaysInYear_leap)

lemma monthStart_0: "monthStart y 0 = 0"
  by (simp add: monthStart_def Let_def)

lemma monthStart_later:
  "m + Suc k \<le> 11 \<Longrightarrow> monthStart y m + int (DaysInMonth y m) \<le> monthStart y (m + Suc k)"
proof (induction k)
  case 0
  then show ?case by (simp add: monthStart_next)
next
  case (Suc k)
  then have "monthStart y m + int (DaysInMonth y m) \<le> monthStart y (m + Suc k)" by simp
  also have "\<dots> \<le> monthStart y (Suc (m + Suc k))"
    using Suc.prems by (simp add: monthStart_next)
  finally show ?case by simp
qed

lemma monthStart_less:
  assumes "m < m'" and "m' \<le> 11"
  shows "monthStart y m + int (DaysInMonth y m) \<le> monthStart y m'"
proof -
  from assms(1) have "m' = m + Suc (m' - m - 1)" by simp
  then show ?thesis using monthStart_later [of m "m' - m - 1" y] assms(2) by simp
qed

lemma monthStart_nonneg: "m \<le> 11 \<Longrightarrow> 0 \<le> monthStart y m"
proof (cases "m = 0")
  case True
  then show ?thesis by (simp add: monthStart_0)
next
  case False
  assume "m \<le> 11"
  with False monthStart_less [of 0 m y] show ?thesis
    by (simp add: monthStart_0)
qed

lemma monthEnd_in_year: "m \<le> 11 \<Longrightarrow> monthStart y m + int (DaysInMonth y m) \<le> DaysInYear y"
proof (cases "m = 11")
  case True
  then show ?thesis by (simp add: monthStart_last)
next
  case False
  assume "m \<le> 11"
  with False have "m < 11" by simp
  then have "monthStart y m + int (DaysInMonth y m) \<le> monthStart y 11"
    by (intro monthStart_less) simp_all
  also have "\<dots> \<le> DaysInYear y"
    using monthStart_last [of y] by simp
  finally show ?thesis .
qed

lemma MakeDay_less:
  assumes "validDay y m d" and "validDay y' m' d'"
    and "y < y' \<or> y = y' \<and> (m < m' \<or> m = m' \<and> d < d')"
  shows "MakeDay y m d < MakeDay y' m' d'"
proof -
  from assms(1) have v: "m \<le> 11" "1 \<le> d" "d \<le> DaysInMonth y m"
    by (simp_all add: validDay_def)
  from assms(2) have v': "m' \<le> 11" "1 \<le> d'" "d' \<le> DaysInMonth y' m'"
    by (simp_all add: validDay_def)
  consider "y < y'" | "y = y'" "m < m'" | "y = y'" "m = m'" "d < d'"
    using assms(3) by blast
  then show ?thesis
  proof cases
    case 1
    have "monthStart y m + int d \<le> DaysInYear y"
      using monthEnd_in_year [OF v(1), of y] v(3) by linarith
    moreover have "DayFromYear y + DaysInYear y \<le> DayFromYear y'"
      using 1 by (rule DayFromYear_less)
    moreover have "0 \<le> monthStart y' m'" using v'(1) by (rule monthStart_nonneg)
    ultimately show ?thesis using v'(2) by (simp add: MakeDay_def)
  next
    case 2
    have "monthStart y m + int (DaysInMonth y m) \<le> monthStart y m'"
      using 2(2) v'(1) by (rule monthStart_less)
    with v(3) v'(2) 2(1) show ?thesis by (simp add: MakeDay_def)
  next
    case 3
    then show ?thesis by (simp add: MakeDay_def)
  qed
qed


lemma MakeTime_range:
  "h \<le> 23 \<Longrightarrow> mi \<le> 59 \<Longrightarrow> 0 \<le> MakeTime h mi 0 0 \<and> MakeTime h mi 0 0 < 86400000"
  by (simp add: MakeTime_def)

lemma MakeTime_less:
  assumes "mi1 \<le> 59" and "h1 < h2 \<or> h1 = h2 \<and> mi1 < mi2"
  shows "MakeTime h1 mi1 0 0 < MakeTime h2 mi2 0 0"
proof -
  consider "h1 < h2" | "h1 = h2" "mi1 < mi2" using assms(2) by blast
  then show ?thesis
  proof cases
    case 1
    then have "int h1 + 1 \<le> int h2" by simp
    then have "(int h1 + 1) * 3600000 \<le> int h2 * 3600000" by (simp only: mult_right_mono)
    with assms(1) show ?thesis by (simp add: MakeTime_def algebra_simps)
  next
    case 2
    then show ?thesis by (simp add: MakeTime_def)
  qed
qed

lemma MakeDate_less:
  assumes "day1 < day2" and "0 \<le> t2" and "t1 < 86400000"
  shows "MakeDate day1 t1 < MakeDate day2 t2"
proof -
  from assms(1) have "(day1 + 1) * 86400000 \<le> day2 * 86400000" by simp
  with assms(2,3) show ?thesis by (simp add: MakeDate_def algebra_simps)
qed

lemma DaysInMonth_le_31: "m \<le> 11 \<Longrightarrow> DaysInMonth y m \<le> 31"
proof -
  assume "m \<le> 11"
  then have "m \<in> {0, 1, 2, 3, 4, 5, 6, 7, 8, 9, 10, 11}" by simp arith
  then show ?thesis
    using InLeapYear_range [of y] by (auto simp: DaysInMonth_def)
qed

subsection \<open>Parsing well-formed dates and times\<close>


lemma dateFieldsD:
  assumes "dateFields d = Some (y, mo, dd)"
  shows "length d = 10" "d ! 4 = CHR ''-''" "d ! 7 = CHR ''-''"
    "digitsVal 0 (take 4 d) = Some y" "digitsVal 0 (take 2 (drop 5 d)) = Some mo"
    "digitsVal 0 (drop 8 d) = Some dd"
    "1 \<le> mo" "mo \<le> 12" "1 \<le> dd" "dd \<le> DaysInMonth (int y) (mo - 1)"
  using assms by (auto simp: dateFields_def split: if_splits option.splits)

lemma timeFieldsD:
  assumes "timeFields t = Some (h, mi)"
  shows "length t = 5" "t ! 2 = CHR '':''"
    "digitsVal 0 (take 2 t) = Some h" "digitsVal 0 (drop 3 t) = Some mi"
    "h \<le> 23" "mi \<le> 59"
  using assms by (auto simp: timeFields_def split: if_splits option.splits)

lemma date_split:
  assumes "length d = 10"
  shows "d = take 4 d @ d ! 4 # take 2 (drop 5 d) @ d ! 7 # drop 8 d"
proof -
  have "d = take 4 d @ d ! 4 # drop 5 d"
    using id_take_nth_drop [of 4 d] assms by simp
  moreover have "drop 5 d = take 2 (drop 5 d) @ d ! 7 # drop 8 d"
    using id_take_nth_drop [of 2 "drop 5 d"] assms by simp
  ultimately show ?thesis by metis
qed

lemma time_split:
  assumes "length t = 5"
  shows "t = take 2 t @ t ! 2 # drop 3 t"
  using id_take_nth_drop [of 2 t] assms by simp

lemma date_order:
  assumes 1: "dateFields d1 = Some (y1, m1, dd1)" and 2: "dateFields d2 = Some (y2, m2, dd2)"
  shows "d1 < d2 \<longleftrightarrow> y1 < y2 \<or> y1 = y2 \<and> (m1 < m2 \<or> m1 = m2 \<and> dd1 < dd2)"
proof -
  note f1 = dateFieldsD [OF 1] and f2 = dateFieldsD [OF 2]
  let ?Y1 = "take 4 d1" and ?M1 = "take 2 (drop 5 d1)" and ?D1 = "drop 8 d1"
  let ?Y2 = "take 4 d2" and ?M2 = "take 2 (drop 5 d2)" and ?D2 = "drop 8 d2"
  have s1: "d1 = ?Y1 @ CHR ''-'' # ?M1 @ CHR ''-'' # ?D1"
    using date_split [OF f1(1)] f1(2,3) by simp
  have s2: "d2 = ?Y2 @ CHR ''-'' # ?M2 @ CHR ''-'' # ?D2"
    using date_split [OF f2(1)] f2(2,3) by simp
  have ly: "length ?Y1 = length ?Y2" and lm: "length ?M1 = length ?M2"
    and ld: "length ?D1 = length ?D2"
    using f1(1) f2(1) by simp_all
  have "d1 < d2 \<longleftrightarrow>
          ?Y1 @ CHR ''-'' # ?M1 @ CHR ''-'' # ?D1 < ?Y2 @ CHR ''-'' # ?M2 @ CHR ''-'' # ?D2"
    using s1 s2 by simp
  also have "\<dots> \<longleftrightarrow> ?Y1 < ?Y2 \<or> ?Y1 = ?Y2 \<and> (?M1 < ?M2 \<or> ?M1 = ?M2 \<and> ?D1 < ?D2)"
    by (simp only: append_less_same_length [OF ly] append_less_same_length [OF lm]
          Cons_less_Cons) simp
  also have "\<dots> \<longleftrightarrow> y1 < y2 \<or> y1 = y2 \<and> (m1 < m2 \<or> m1 = m2 \<and> dd1 < dd2)"
    using digits_order [OF ly f1(4) f2(4)] digits_order [OF lm f1(5) f2(5)]
      digits_order [OF ld f1(6) f2(6)]
    by simp
  finally show ?thesis .
qed

lemma time_order:
  assumes 1: "timeFields t1 = Some (h1, mi1)" and 2: "timeFields t2 = Some (h2, mi2)"
  shows "t1 < t2 \<longleftrightarrow> h1 < h2 \<or> h1 = h2 \<and> mi1 < mi2"
proof -
  note f1 = timeFieldsD [OF 1] and f2 = timeFieldsD [OF 2]
  let ?H1 = "take 2 t1" and ?M1 = "drop 3 t1"
  let ?H2 = "take 2 t2" and ?M2 = "drop 3 t2"
  have s1: "t1 = ?H1 @ CHR '':'' # ?M1"
    using time_split [OF f1(1)] f1(2) by simp
  have s2: "t2 = ?H2 @ CHR '':'' # ?M2"
    using time_split [OF f2(1)] f2(2) by simp
  have lh: "length ?H1 = length ?H2" and lm: "length ?M1 = length ?M2"
    using f1(1) f2(1) by simp_all
  have "t1 < t2 \<longleftrightarrow> ?H1 @ CHR '':'' # ?M1 < ?H2 @ CHR '':'' # ?M2"
    using s1 s2 by simp
  also have "\<dots> \<longleftrightarrow> ?H1 < ?H2 \<or> ?H1 = ?H2 \<and> ?M1 < ?M2"
    by (simp only: append_less_same_length [OF lh] Cons_less_Cons) simp
  also have "\<dots> \<longleftrightarrow> h1 < h2 \<or> h1 = h2 \<and> mi1 < mi2"
    using digits_order [OF lh f1(3) f2(3)] digits_order [OF lm f1(4) f2(4)]
    by simp
  finally show ?thesis .
qed


lemma parse_wellFormed:
  assumes d: "dateFields d = Some (y, mo, dd)" and t: "timeFields t = Some (h, mi)"
  shows "parseDateTime (d @ CHR ''T'' # t)
           = Some (MakeDate (MakeDay (int y) (mo - 1) dd) (MakeTime h mi 0 0))"
proof -
  note fd = dateFieldsD [OF d] and ft = timeFieldsD [OF t]
  have l: "length (d @ CHR ''T'' # t) = 16" using fd(1) ft(1) by simp
  have n: "(d @ CHR ''T'' # t) ! 4 = CHR ''-''" "(d @ CHR ''T'' # t) ! 7 = CHR ''-''"
    "(d @ CHR ''T'' # t) ! 10 = CHR ''T''" "(d @ CHR ''T'' # t) ! 13 = CHR '':''"
    using fd(1,2,3) ft(1,2) by (simp_all add: nth_append)
  have p: "take 4 (d @ CHR ''T'' # t) = take 4 d"
    "take 2 (drop 5 (d @ CHR ''T'' # t)) = take 2 (drop 5 d)"
    "take 2 (drop 8 (d @ CHR ''T'' # t)) = drop 8 d"
    "take 2 (drop 11 (d @ CHR ''T'' # t)) = take 2 t"
    "take 2 (drop 14 (d @ CHR ''T'' # t)) = drop 3 t"
    "drop 16 (d @ CHR ''T'' # t) = []"
    using fd(1) ft(1) by simp_all
  have "mo - 1 \<le> 11" using fd(8) by simp
  from DaysInMonth_le_31 [OF this, of "int y"] fd(10) have dd: "dd \<le> 31" by simp
  show ?thesis
    unfolding parseDateTime_def p
    using l n fd(4-9) ft(3-6) dd by (simp add: parseSeconds_def)
qed

lemma validDay_fields:
  assumes "dateFields d = Some (y, mo, dd)"
  shows "validDay (int y) (mo - 1) dd"
  using dateFieldsD [OF assms] by (simp add: validDay_def)

lemma localTime_less_fields:
  assumes d1: "dateFields d1 = Some (y1, m1, dd1)" and t1: "timeFields t1 = Some (h1, mi1)"
    and d2: "dateFields d2 = Some (y2, m2, dd2)" and t2: "timeFields t2 = Some (h2, mi2)"
    and less: "d1 < d2 \<or> d1 = d2 \<and> t1 < t2"
  shows "MakeDate (MakeDay (int y1) (m1 - 1) dd1) (MakeTime h1 mi1 0 0)
           < MakeDate (MakeDay (int y2) (m2 - 1) dd2) (MakeTime h2 mi2 0 0)"
proof -
  note ft1 = timeFieldsD [OF t1] and ft2 = timeFieldsD [OF t2]
  note fd1 = dateFieldsD [OF d1] and fd2 = dateFieldsD [OF d2]
  consider "d1 < d2" | "d1 = d2" "t1 < t2" using less by blast
  then show ?thesis
  proof cases
    case 1
    then have "y1 < y2 \<or> y1 = y2 \<and> (m1 < m2 \<or> m1 = m2 \<and> dd1 < dd2)"
      using date_order [OF d1 d2] by simp
    then have "int y1 < int y2 \<or> int y1 = int y2 \<and> (m1 - 1 < m2 - 1 \<or> m1 - 1 = m2 - 1 \<and> dd1 < dd2)"
      using fd1(7) fd2(7) by auto
    then have "MakeDay (int y1) (m1 - 1) dd1 < MakeDay (int y2) (m2 - 1) dd2"
      using validDay_fields [OF d1] validDay_fields [OF d2] by (intro MakeDay_less)
    then show ?thesis
      using MakeTime_range [OF ft1(5,6)] MakeTime_range [OF ft2(5,6)]
      by (intro MakeDate_less) simp_all
  next
    case 2
    from 2(1) d1 d2 have "y1 = y2" "m1 = m2" "dd1 = dd2" by simp_all
    moreover have "MakeTime h1 mi1 0 0 < MakeTime h2 mi2 0 0"
      using time_order [OF t1 t2] 2(2) ft1(6) by (intro MakeTime_less) simp_all
    ultimately show ?thesis by (simp add: MakeDate_def)
  qed
qed

lemma wellFormed_localTime:
  assumes "wellFormed tx"
  shows "\<exists>s. localTime tx = Some s"
proof -
  from assms obtain y mo dd h mi where "dateFields (Transaction.date tx) = Some (y, mo, dd)"
    and "timeFields (Transaction.time tx) = Some (h, mi)"
    by (auto simp: wellFormed_def)
  then show ?thesis
    by (simp add: localTime_def parse_wellFormed)
qed

lemma localTime_less:
  assumes "wellFormed a" and "wellFormed b"
    and "Transaction.date a < Transaction.date b
         \<or> Transaction.date a = Transaction.date b \<and> Transaction.time a < Transaction.time b"
    and "localTime a = Some s" and "localTime b = Some t"
  shows "s < t"
proof -
  from assms(1) obtain y1 m1 dd1 h1 mi1
    where a: "dateFields (Transaction.date a) = Some (y1, m1, dd1)"
      "timeFields (Transaction.time a) = Some (h1, mi1)"
    by (auto simp: wellFormed_def)
  from assms(2) obtain y2 m2 dd2 h2 mi2
    where b: "dateFields (Transaction.date b) = Some (y2, m2, dd2)"
      "timeFields (Transaction.time b) = Some (h2, mi2)"
    by (auto simp: wellFormed_def)
  show ?thesis
    using localTime_less_fields [OF a b assms(3)] assms(4,5)
    by (simp add: localTime_def parse_wellFormed [OF a] parse_wellFormed [OF b])
qed

lemma stamp_localTime:
  assumes "localTime tx = Some s"
  shows "getTime utc (Transaction.date tx @ ''T'' @ Transaction.time tx) = Some (utc s)"
    and "stamp utc tx = utc s"
  using assms by (simp_all add: stamp_def getTime_def localTime_def)

lemma keepsOrderD:
  assumes "keepsOrder utc txs" and "a \<in> set txs" and "b \<in> set txs"
    and "localTime a = Some s" and "localTime b = Some t" and "s < t"
  shows "utc s < utc t"
proof -
  from assms(1,2,3) have "case (localTime a, localTime b) of
          (Some s, Some t) \<Rightarrow> s < t \<longrightarrow> utc s < utc t
        | _ \<Rightarrow> True"
    by (simp add: keepsOrder_def list_all_iff)
  with assms(4,5,6) show ?thesis by simp
qed

lemma stamp_less:
  assumes "keepsOrder utc txs" and "a \<in> set txs" and "b \<in> set txs"
    and "wellFormed a" and "wellFormed b"
    and "Transaction.date a < Transaction.date b
         \<or> Transaction.date a = Transaction.date b \<and> Transaction.time a < Transaction.time b"
  shows "stamp utc a < stamp utc b"
proof -
  obtain s t where st: "localTime a = Some s" "localTime b = Some t"
    using wellFormed_localTime [OF assms(4)] wellFormed_localTime [OF assms(5)] by blast
  have "s < t" using assms(4,5,6) st by (rule localTime_less)
  with assms(1,2,3) st have "utc s < utc t" by (rule keepsOrderD)
  then show ?thesis by (simp only: stamp_localTime(2) [OF st(1)] stamp_localTime(2) [OF st(2)])
qed

lemma stamp_le_order:
  assumes "keepsOrder utc txs" and "a \<in> set txs" and "b \<in> set txs"
    and "wellFormed a" and "wellFormed b" and "stamp utc a \<le> stamp utc b"
  shows "Transaction.date a < Transaction.date b
         \<or> Transaction.date a = Transaction.date b \<and> Transaction.time a \<le> Transaction.time b"
proof (rule ccontr)
  assume "\<not> ?thesis"
  then have "Transaction.date b < Transaction.date a
         \<or> Transaction.date b = Transaction.date a \<and> Transaction.time b < Transaction.time a"
    by auto
  from stamp_less [OF assms(1,3,2,5,4) this] assms(6) show False by simp
qed

lemma byDateTime_wellFormed:
  assumes "wellFormed a" and "wellFormed b"
  shows "sortCompare (byDateTime utc) a b = stamp utc a - stamp utc b"
proof -
  obtain s t where st: "localTime a = Some s" "localTime b = Some t"
    using wellFormed_localTime [OF assms(1)] wellFormed_localTime [OF assms(2)] by blast
  show ?thesis
    unfolding sortCompare_def byDateTime_def
    by (simp only: stamp_localTime [OF st(1)] stamp_localTime [OF st(2)]) simp
qed

text \<open>A zone with a fixed offset keeps the order of all local times.\<close>

lemma keepsOrder_increasing:
  assumes "\<And>s t. s < t \<Longrightarrow> utc s < utc t"
  shows "keepsOrder utc txs"
  using assms by (simp add: keepsOrder_def list_all_iff split: option.splits)

lemma keepsOrder_fixed_offset: "keepsOrder (\<lambda>t. t - offset) txs"
  by (rule keepsOrder_increasing) simp

lemma keepsOrder_utcIndia: "keepsOrder utcIndia txs"
  by (rule keepsOrder_increasing) (simp add: utcIndia_def)

subsection \<open>The range of the join code\<close>

text \<open>
  The largest double below 1 is \<open>1 - 2^-53\<close>. Its product with 900000 rounds to
  \<open>900000 - 2^-33\<close>, and 100000 more is \<open>1000000 - 2^-33\<close>, which is a double: the doubles
  from \<open>2^19\<close> to \<open>2^20\<close> are the multiples of \<open>2^-33\<close>.
\<close>

lemma largest_product:
  "roundMagnitude ((1 - 1 / 2 ^ 53) * 900000) = 900000 - 1 / 2 ^ 33"
  using roundMagnitude_normal [of 33 "(1 - 1 / 2 ^ 53) * 900000"]
  by (simp add: roundHalfEven_def Let_def floor_rat_divide_numeral)

lemma largest_sum:
  "roundMagnitude (1000000 - 1 / 2 ^ 33) = 1000000 - 1 / 2 ^ 33"
  using roundMagnitude_normal [of 33 "1000000 - 1 / 2 ^ 33"]
  by (simp add: roundHalfEven_def Let_def floor_rat_divide_numeral)

lemma smallest_sum: "roundMagnitude 100000 = 100000"
  using roundMagnitude_of_int [of 100000] by simp

lemma joinCode_range:
  assumes "isNumber r" and "0 \<le> r" and "r < 1"
  shows "\<exists>s. numAdd (Finite 100000) (numMul (Finite r) (Finite 900000)) = Finite s
             \<and> 100000 \<le> s \<and> s < 1000000"
proof -
  have r: "r \<le> 1 - 1 / 2 ^ 53" using assms by (rule below_one)
  have "r * 900000 \<le> (1 - 1 / 2 ^ 53) * 900000"
    using r by (rule mult_right_mono) simp
  moreover have "0 \<le> r * 900000" using assms(2) by simp
  moreover have "roundMagnitude ((1 - 1 / 2 ^ 53) * 900000) < 2 ^ 1024"
    unfolding largest_product by simp
  ultimately obtain m where m: "toNumber (r * 900000) = Finite m" "0 \<le> m"
    "m \<le> roundMagnitude ((1 - 1 / 2 ^ 53) * 900000)"
    using toNumber_between [of "r * 900000" "(1 - 1 / 2 ^ 53) * 900000"] by blast
  from m(3) have m': "m \<le> 900000 - 1 / 2 ^ 33" by (simp only: largest_product)
  have le: "100000 + m \<le> 1000000 - 1 / 2 ^ 33" using m' by simp
  have ge: "100000 \<le> 100000 + m" using m(2) by simp
  have "roundMagnitude (1000000 - 1 / 2 ^ 33) < 2 ^ 1024"
    unfolding largest_sum by simp
  with le ge obtain s where s: "toNumber (100000 + m) = Finite s"
    "s \<le> roundMagnitude (1000000 - 1 / 2 ^ 33)"
    using toNumber_between [of "100000 + m" "1000000 - 1 / 2 ^ 33"] by force
  from s(2) have "s \<le> 1000000 - 1 / 2 ^ 33" by (simp only: largest_sum)
  then have hi: "s < 1000000" by simp
  have "roundMagnitude 100000 \<le> s"
    using _ ge s(1) by (rule toNumber_at_least) simp
  then have lo: "100000 \<le> s" by (simp only: smallest_sum)
  from m(1) s(1) lo hi show ?thesis by simp
qed

lemma double_0_7: "toNumber (7 / 10) = Finite (3152519739159347 / 4503599627370496)"
  using toNumber_normal [of 53 "7 / 10"]
  by (simp add: roundHalfEven_def Let_def floor_rat_divide_numeral)

lemma isNumber_0_7: "isNumber (3152519739159347 / 4503599627370496)"
  unfolding isNumber_def
  using toNumber_normal [of 53 "3152519739159347 / 4503599627370496"]
  by (simp add: roundHalfEven_def Let_def floor_rat_divide_numeral)

lemma product_0_7:
  "numMul (Finite (3152519739159347 / 4503599627370496)) (Finite 900000) = Finite 630000"
  using toNumber_normal [of 33 "3152519739159347 / 4503599627370496 * 900000"]
  by (simp add: roundHalfEven_def Let_def floor_rat_divide_numeral)

lemma joinCode_0_7: "joinCode (Finite (3152519739159347 / 4503599627370496)) = Some ''730000''"
  unfolding joinCode_def product_0_7
  by (simp add: toNumber_whole natToString.simps digitChar_def)


section \<open>The claims\<close>

text \<open>
  C1, as the specification states it (for every list of transactions), fails: the running
  balance is accumulated over the transactions in the order of their times, the balance
  of the book is the difference of two sums, and the additions of doubles round
  differently. For 0.1 in, 0.1 out and 0.2 in, the \<open>runningBalance\<close> of the most recent
  entry is the double 0.2 and the \<open>balance\<close> of \<open>getBookTotals\<close> is the next double above
  it, 0.20000000000000004.
\<close>

theorem running_balance_rounding_counterexample:
  "map runningBalance (computeRunningBalances utcIndia roundingBook)
     = [Finite (3602879701896397 / 18014398509481984), Finite 0,
        Finite (3602879701896397 / 36028797018963968)]
   \<and> map_option BookWithTotals.balance (getBookTotals (Some (mkLedger (map entryOf roundingBook))))
       = Some (Finite (7205759403792795 / 36028797018963968))
   \<and> map_option BookWithTotals.balance (getBookTotals (Some (mkLedger (map entryOf roundingBook))))
       \<noteq> Some (runningBalance (hd (computeRunningBalances utcIndia roundingBook)))"
proof -
  have r: "map runningBalance (computeRunningBalances utcIndia roundingBook)
     = [Finite (3602879701896397 / 18014398509481984), Finite 0,
        Finite (3602879701896397 / 36028797018963968)]"
    unfolding computeRunningBalances_def roundingBook_def sorted_same_day
    by (simp add: mkTx_def Let_def TransactionType_IN_def Transaction.extend_def doubles
          del: numAdd.simps)
  have b: "map_option BookWithTotals.balance
             (getBookTotals (Some (mkLedger (map entryOf roundingBook))))
       = Some (Finite (7205759403792795 / 36028797018963968))"
    by (simp add: roundingBook_def mkTx_def getBookTotals_def mkLedger_def entryOf_def
          sumEntries_def doubles del: numAdd.simps)
  have "computeRunningBalances utcIndia roundingBook \<noteq> []"
    using r by auto
  then have "runningBalance (hd (computeRunningBalances utcIndia roundingBook))
               = hd (map runningBalance (computeRunningBalances utcIndia roundingBook))"
    by (simp add: hd_map)
  then have h: "runningBalance (hd (computeRunningBalances utcIndia roundingBook))
               = Finite (3602879701896397 / 18014398509481984)"
    by (simp only: r list.sel)
  show ?thesis unfolding r b h by simp
qed

text \<open>
  C1, amended. For a non-empty list of transactions whose amounts are whole numbers with
  magnitudes that add up to less than \<open>2^53\<close>, so that no addition rounds, the
  \<open>runningBalance\<close> of the first element that \<open>computeRunningBalances\<close> returns (the most
  recent entry), which is the last value of the ascending pass, equals the \<open>balance\<close> that
  \<open>getBookTotals\<close> computes from the amounts and types of the same transactions, and that
  balance is \<open>totalIn - totalOut\<close>. This holds in every time zone of the host.
\<close>

theorem running_balance_of_most_recent_is_book_balance:
  assumes "txs \<noteq> []" and "safeWholeAmounts (map Transaction.amount txs)"
  shows "\<exists>first rest bk.
           computeRunningBalances utc txs = first # rest
           \<and> getBookTotals (Some (data\<lparr>ledger.entries := Some (map entryOf txs)\<rparr>)) = Some bk
           \<and> BookWithTotals.balance bk
               = numSub (BookWithTotals.totalIn bk) (BookWithTotals.totalOut bk)
           \<and> runningBalance first = BookWithTotals.balance bk
           \<and> runningBalance (last (withBalance (Finite 0) (sortedAsc utc txs)))
               = BookWithTotals.balance bk"
proof -
  let ?asc = "sortedAsc utc txs"
  let ?es = "map entryOf txs"
  have am: "map entry.amount ?es = map Transaction.amount txs"
    by (simp add: entryOf_def comp_def)
  have safe: "safeWholeAmounts (map entry.amount ?es)"
    using assms(2) by (simp only: am)
  have ne: "?asc \<noteq> []"
    using assms(1) by (metis sortedAsc_def length_array_sort length_0_conv)
  then have wne: "withBalance (Finite 0) ?asc \<noteq> []"
    by (metis length_withBalance length_0_conv)
  have w: "list_all (\<lambda>tx. wholeNumber (Transaction.amount tx)) ?asc"
    using assms(2)
    by (simp add: safeWholeAmounts_def list_all_iff sortedAsc_def set_array_sort)
  have "sum_list (map (\<lambda>tx. magnitude (Transaction.amount tx)) ?asc)
          = sum_list (map (\<lambda>tx. magnitude (Transaction.amount tx)) txs)"
    unfolding sortedAsc_def by (rule sum_list_array_sort)
  also have "\<dots> = sum_list (map magnitude (map Transaction.amount txs))"
    by (simp add: comp_def)
  finally have m: "\<bar>0::rat\<bar> + sum_list (map (\<lambda>tx. magnitude (Transaction.amount tx)) ?asc) < 2 ^ 53"
    using assms(2) by (simp add: safeWholeAmounts_def)
  have "sum_list (map signedValue ?asc) = sum_list (map signedValue txs)"
    unfolding sortedAsc_def by (rule sum_list_array_sort)
  then have l: "runningBalance (last (withBalance (Finite 0) ?asc))
                  = Finite (inValue ?es - otherValue ?es)"
    using last_withBalance_whole [OF ne w _ m] signedValue_sum [of txs] by simp
  note t = totals_whole [OF safe]
  have bal: "numSub (inAmounts ?es) (otherAmounts ?es) = Finite (inValue ?es - otherValue ?es)"
    using in_minus_other_whole [OF safe] by (simp only: t(1,2))
  obtain first rest where fr: "computeRunningBalances utc txs = first # rest"
    using wne by (cases "computeRunningBalances utc txs") (simp_all add: computeRunningBalances_def)
  have "first = hd (rev (withBalance (Finite 0) ?asc))"
    using fr by (simp add: computeRunningBalances_def)
  then have "first = last (withBalance (Finite 0) ?asc)"
    using wne by (simp add: hd_rev)
  with l bal fr show ?thesis
    by (simp add: getBookTotals_def sumEntries_Some)
qed

theorem running_balance_of_most_recent_witness:
  "scenario1 \<noteq> []
   \<and> safeWholeAmounts (map Transaction.amount scenario1)
   \<and> map runningBalance (computeRunningBalances utcIndia scenario1)
       = [Finite 70, Finite 60, Finite 100]
   \<and> map_option BookWithTotals.balance
        (getBookTotals (Some (mkLedger (map entryOf scenario1)))) = Some (Finite 70)"
proof -
  have h: "scenario1 \<noteq> []"
    by (simp add: scenario1_def)
  have b: "map_option BookWithTotals.balance
             (getBookTotals (Some (mkLedger (map entryOf scenario1)))) = Some (Finite 70)"
    by (simp add: getBookTotals_def mkLedger_def totals_scenario1 numSub_def toNumber_whole)
  from running_balance_of_most_recent_is_book_balance [OF h safe_scenario1, of utcIndia "mkLedger []"]
    running_scenario1 b h safe_scenario1
  show ?thesis by simp
qed

text \<open>
  C2, as the specification states it (for every list of transactions with well-formed date
  and time fields), fails on a host whose zone sets its clocks forward. The sort compares
  the instants \<open>new Date(...).getTime()\<close>, and a local time within the skipped hour is read
  with the offset before the change: in New York, on 10 March 2024, 02:30 is the instant
  1710055800000 and 03:00 the earlier instant 1710054000000. So 02:30 is sorted after
  03:00, and after the final reversal the output lists 02:30 before 03:00.
\<close>

theorem output_order_counterexample:
  "list_all wellFormed springForward
   \<and> getTime utcNewYork2024 ''2024-03-10T02:30'' = Some 1710055800000
   \<and> getTime utcNewYork2024 ''2024-03-10T03:00'' = Some 1710054000000
   \<and> map (\<lambda>out. (Transaction.date out, Transaction.time out))
        (computeRunningBalances utcNewYork2024 springForward)
       = [(''2024-03-10'', ''02:30''), (''2024-03-10'', ''03:00'')]
   \<and> \<not> successively notEarlier (computeRunningBalances utcNewYork2024 springForward)"
proof -
  have w: "list_all wellFormed springForward"
    by code_simp
  have g: "getTime utcNewYork2024 ''2024-03-10T02:30'' = Some 1710055800000"
    "getTime utcNewYork2024 ''2024-03-10T03:00'' = Some 1710054000000"
    by code_simp+
  have s: "sortedAsc utcNewYork2024 springForward =
     [mkTx ''late'' ''IN'' (Finite 2) ''2024-03-10'' ''03:00'',
      mkTx ''early'' ''IN'' (Finite 1) ''2024-03-10'' ''02:30'']"
    by code_simp
  have c: "computeRunningBalances utcNewYork2024 springForward =
     [Transaction.extend (mkTx ''early'' ''IN'' (Finite 1) ''2024-03-10'' ''02:30'')
        \<lparr>runningBalance = Finite 3\<rparr>,
      Transaction.extend (mkTx ''late'' ''IN'' (Finite 2) ''2024-03-10'' ''03:00'')
        \<lparr>runningBalance = Finite 2\<rparr>]"
    unfolding computeRunningBalances_def s
    by (simp add: mkTx_def Let_def toNumber_whole TransactionType_IN_def)
  have m: "map (\<lambda>out. (Transaction.date out, Transaction.time out))
        (computeRunningBalances utcNewYork2024 springForward)
       = [(''2024-03-10'', ''02:30''), (''2024-03-10'', ''03:00'')]"
    unfolding c by (simp add: mkTx_def Transaction.extend_def)
  have n: "\<not> successively notEarlier (computeRunningBalances utcNewYork2024 springForward)"
    unfolding c by (simp add: mkTx_def Transaction.extend_def notEarlier_def)
  from w g m n show ?thesis by (simp only: simp_thms)
qed

text \<open>
  C2, amended. For every list of transactions whose dates and times are well-formed, on a
  host whose zone puts the earlier of two local times of the list at the earlier instant
  (every zone with a fixed offset does, and every zone does for lists with no time within
  an hour that its clocks skip), the output of \<open>computeRunningBalances\<close> is sorted
  descending by (date, time): each element \<open>a\<close> and the element \<open>b\<close> right after it (and
  every element after it) satisfy \<open>a.date > b.date\<close>, or \<open>a.date = b.date\<close> and
  \<open>a.time \<ge> b.time\<close>.
\<close>

theorem output_sorted_descending_by_date_time:
  assumes "list_all wellFormed txs" and "keepsOrder utc txs"
  shows "successively notEarlier (computeRunningBalances utc txs)
       \<and> sorted_wrt notEarlier (computeRunningBalances utc txs)"
proof -
  let ?R = "\<lambda>a b. Transaction.date a < Transaction.date b
         \<or> Transaction.date a = Transaction.date b \<and> Transaction.time a \<le> Transaction.time b"
  have wf: "wellFormed x" if "x \<in> set txs" for x
    using assms(1) that by (simp add: list_all_iff)
  have "sorted_wrt (\<lambda>a b. stamp utc a \<le> stamp utc b) (sortedAsc utc txs)"
    unfolding sortedAsc_def
    by (intro sorted_array_sort byDateTime_wellFormed wf)
  then have asc: "sorted_wrt ?R (sortedAsc utc txs)"
  proof (rule sorted_wrt_mono_rel [rotated])
    fix x y assume "x \<in> set (sortedAsc utc txs)" "y \<in> set (sortedAsc utc txs)"
      and le: "stamp utc x \<le> stamp utc y"
    then have "x \<in> set txs" "y \<in> set txs"
      by (simp_all add: sortedAsc_def set_array_sort)
    then show "?R x y"
      using stamp_le_order [OF assms(2) _ _ _ _ le] wf by blast
  qed
  have "sorted_wrt ?R (map Transaction.truncate (withBalance (Finite 0) (sortedAsc utc txs)))"
    using asc by (simp only: truncate_withBalance)
  then have "sorted_wrt (\<lambda>a b. ?R (Transaction.truncate a) (Transaction.truncate b))
               (withBalance (Finite 0) (sortedAsc utc txs))"
    by (simp only: sorted_wrt_map)
  then have "sorted_wrt (\<lambda>a b. notEarlier b a) (withBalance (Finite 0) (sortedAsc utc txs))"
    by (rule sorted_wrt_mono_rel [rotated])
       (auto simp: notEarlier_def Transaction.truncate_def)
  then have "sorted_wrt notEarlier (computeRunningBalances utc txs)"
    by (simp add: computeRunningBalances_def sorted_wrt_rev)
  then show ?thesis
    by (simp add: successively_if_sorted_wrt)
qed

theorem output_sorted_descending_witness:
  "list_all wellFormed scenario1
   \<and> keepsOrder utcIndia scenario1
   \<and> map (\<lambda>out. (Transaction.date out, Transaction.time out))
        (computeRunningBalances utcIndia scenario1)
       = [(''2024-01-02'', ''08:00''), (''2024-01-01'', ''10:00''), (''2024-01-01'', ''09:00'')]"
proof -
  have h: "list_all wellFormed scenario1"
    by code_simp
  have k: "keepsOrder utcIndia scenario1"
    by (rule keepsOrder_utcIndia)
  have "map (\<lambda>out. (Transaction.date out, Transaction.time out))
          (computeRunningBalances utcIndia scenario1)
        = map (\<lambda>tx. (Transaction.date tx, Transaction.time tx))
            (map Transaction.truncate (computeRunningBalances utcIndia scenario1))"
    by (simp add: Transaction.truncate_def comp_def)
  also have "\<dots> = [(''2024-01-02'', ''08:00''), (''2024-01-01'', ''10:00''),
                    (''2024-01-01'', ''09:00'')]"
    unfolding truncate_computeRunningBalances sorted_scenario1 by (simp add: mkTx_def)
  finally have e: "map (\<lambda>out. (Transaction.date out, Transaction.time out))
             (computeRunningBalances utcIndia scenario1)
       = [(''2024-01-02'', ''08:00''), (''2024-01-01'', ''10:00''), (''2024-01-01'', ''09:00'')]" .
  from output_sorted_descending_by_date_time [OF h k] h k e show ?thesis by simp
qed

text \<open>
  C3. The output of \<open>computeRunningBalances\<close>, with the \<open>runningBalance\<close> annotation
  forgotten, has exactly the elements of the input, each as often as the input has it:
  nothing is dropped, duplicated or invented.
\<close>

theorem output_is_permutation_of_input:
  "mset (map Transaction.truncate (computeRunningBalances utc txs)) = mset txs
   \<and> length (computeRunningBalances utc txs) = length txs"
proof -
  have "map Transaction.truncate (computeRunningBalances utc txs) = rev (sortedAsc utc txs)"
    by (simp add: computeRunningBalances_def rev_map [symmetric] truncate_withBalance)
  then have "mset (map Transaction.truncate (computeRunningBalances utc txs)) = mset txs"
    by (simp add: sortedAsc_def mset_array_sort)
  then show ?thesis
    by (metis length_map size_mset)
qed

text \<open>
  C4, as the specification states it (no precondition on the amounts), fails: one
  \<open>OUT\<close> entry of amount \<open>-5\<close> gives \<open>totalOut = -5\<close> in \<open>getBookTotals\<close>, and one \<open>IN\<close> entry
  of amount \<open>-5\<close> gives \<open>totalIn = -5\<close> in \<open>getBooks\<close>.
\<close>

theorem totals_negative_counterexample:
  "map_option BookWithTotals.totalOut
     (getBookTotals (Some \<lparr>ledger.id = ''book'', ledger.project_id = ''business'',
        ledger.name = ''Cash'', ledger.created_at = 0,
        ledger.entries = Some [\<lparr>entry.amount = Finite (- 5), entry.type = ''OUT''\<rparr>]\<rparr>))
     = Some (Finite (- 5))
   \<and> map BookWithTotals.totalIn
     (getBooks (Some [\<lparr>ledger.id = ''book'', ledger.project_id = ''business'',
        ledger.name = ''Cash'', ledger.created_at = 0,
        ledger.entries = Some [\<lparr>entry.amount = Finite (- 5), entry.type = ''IN''\<rparr>]\<rparr>]))
     = [Finite (- 5)]
   \<and> \<not> atLeastZero (Finite (- 5))"
  by (simp add: getBookTotals_def getBooks_def sumEntries_def toNumber_whole)

text \<open>
  C4, amended. When no entry of the ledgers has a negative amount, the \<open>totalIn\<close> and the
  \<open>totalOut\<close> of every book that \<open>getBooks\<close> returns, and of the book that \<open>getBookTotals\<close>
  returns for each ledger, are at least 0.
\<close>

theorem totals_nonnegative_for_nonnegative_amounts:
  assumes "list_all (\<lambda>l. nonNegative (ledger.entries l)) ls"
  shows "list_all (\<lambda>bk. atLeastZero (BookWithTotals.totalIn bk)
                       \<and> atLeastZero (BookWithTotals.totalOut bk))
           (getBooks (Some ls))
       \<and> list_all (\<lambda>l. case getBookTotals (Some l) of
                          None \<Rightarrow> False
                        | Some bk \<Rightarrow>
                            atLeastZero (BookWithTotals.totalIn bk)
                            \<and> atLeastZero (BookWithTotals.totalOut bk)) ls"
  using assms
  by (induction ls)
     (auto simp: getBooks_def getBookTotals_def split: prod.splits dest: sumEntries_nonneg)

theorem totals_nonnegative_witness:
  "list_all (\<lambda>l. nonNegative (ledger.entries l)) [mkLedger (map entryOf scenario1)]
   \<and> map BookWithTotals.totalIn (getBooks (Some [mkLedger (map entryOf scenario1)]))
       = [Finite 110]
   \<and> map BookWithTotals.totalOut (getBooks (Some [mkLedger (map entryOf scenario1)]))
       = [Finite 40]"
proof -
  have h: "list_all (\<lambda>l. nonNegative (ledger.entries l)) [mkLedger (map entryOf scenario1)]"
    by (simp add: nonNegative_def mkLedger_def scenario1_def entryOf_def mkTx_def)
  have i: "map BookWithTotals.totalIn (getBooks (Some [mkLedger (map entryOf scenario1)]))
             = [Finite 110]"
    by (simp add: getBooks_def mkLedger_def totals_scenario1)
  have out: "map BookWithTotals.totalOut (getBooks (Some [mkLedger (map entryOf scenario1)]))
               = [Finite 40]"
    by (simp add: getBooks_def mkLedger_def totals_scenario1)
  from totals_nonnegative_for_nonnegative_amounts [OF h] h i out show ?thesis by simp
qed

text \<open>
  C5, as the specification states it, fails: a transaction of direction \<open>OUT\<close> with the
  amount \<open>-5\<close> is neither rejected nor skipped. It is in the output with the running
  balance \<open>5\<close>, and the totals of its book are \<open>totalIn = 0\<close>, \<open>totalOut = -5\<close> and
  \<open>balance = 5\<close>.
\<close>

theorem negative_out_amount_counterexample:
  "map runningBalance (computeRunningBalances utcIndia [negativeOut]) = [Finite 5]
   \<and> map_option (\<lambda>bk. (BookWithTotals.totalIn bk, BookWithTotals.totalOut bk,
                        BookWithTotals.balance bk))
        (getBookTotals (Some (mkLedger [entryOf negativeOut])))
       = Some (Finite 0, Finite (- 5), Finite 5)"
  by (simp add: computeRunningBalances_def sortedAsc_def array_sort_def negativeOut_def mkTx_def
       Transaction.extend_def TransactionType_IN_def getBookTotals_def mkLedger_def entryOf_def
       sumEntries_def numSub_def toNumber_whole)

text \<open>
  C5, amended. There is no MalformedInput outcome: a transaction with direction \<open>OUT\<close>
  and a negative amount is processed as any other. It stays in the output of
  \<open>computeRunningBalances\<close>, which has one element for each input transaction. Against
  the same book without it, \<open>getBookTotals\<close> returns the same \<open>totalIn\<close>; the loop adds the
  negative amount to \<open>totalOut\<close> as it is, after the entries before it and before the
  entries after it, and \<open>balance\<close> is \<open>totalIn - totalOut\<close>. When the amounts of the book
  are whole numbers with magnitudes that add up to less than \<open>2^53\<close>, so that no addition
  rounds, \<open>totalOut\<close> is lower by the magnitude of the amount and \<open>balance\<close> higher by it.
\<close>

theorem negative_out_amount_is_counted:
  assumes "Transaction.type tx = ''OUT''" and "Transaction.amount tx = Finite a" and "a < 0"
  shows "length (computeRunningBalances utc (before @ tx # after)) = length before + 1 + length after
       \<and> tx \<in> set (map Transaction.truncate (computeRunningBalances utc (before @ tx # after)))
       \<and> (\<exists>bk bk'.
             getBookTotals (Some (data\<lparr>ledger.entries := Some (map entryOf (before @ tx # after))\<rparr>))
               = Some bk
           \<and> getBookTotals (Some (data\<lparr>ledger.entries := Some (map entryOf (before @ after))\<rparr>))
               = Some bk'
           \<and> BookWithTotals.totalIn bk = BookWithTotals.totalIn bk'
           \<and> BookWithTotals.totalOut bk
               = foldl numAdd (numAdd (otherAmounts (map entryOf before)) (Finite a))
                   (map entry.amount (filter (\<lambda>t. entry.type t \<noteq> ''IN'') (map entryOf after)))
           \<and> BookWithTotals.balance bk
               = numSub (BookWithTotals.totalIn bk) (BookWithTotals.totalOut bk)
           \<and> (safeWholeAmounts (map Transaction.amount (before @ tx # after)) \<longrightarrow>
                (\<exists>i out. BookWithTotals.totalIn bk' = Finite i
                   \<and> BookWithTotals.totalOut bk' = Finite out
                   \<and> BookWithTotals.balance bk' = Finite (i - out)
                   \<and> BookWithTotals.totalOut bk = Finite (out - \<bar>a\<bar>)
                   \<and> BookWithTotals.balance bk = Finite (i - out + \<bar>a\<bar>))))"
proof -
  let ?txs = "before @ tx # after"
  let ?es = "map entryOf ?txs"
  let ?es' = "map entryOf (before @ after)"
  have t: "map Transaction.truncate (computeRunningBalances utc ?txs) = rev (sortedAsc utc ?txs)"
    by (simp add: computeRunningBalances_def rev_map [symmetric] truncate_withBalance)
  have "length (computeRunningBalances utc ?txs) = length ?txs"
    by (metis t length_map length_rev sortedAsc_def length_array_sort)
  then have 1: "length (computeRunningBalances utc ?txs) = length before + 1 + length after"
    by simp
  have "set (rev (sortedAsc utc ?txs)) = set ?txs"
    by (metis mset_array_sort sortedAsc_def set_rev set_mset_mset)
  then have 2: "tx \<in> set (map Transaction.truncate (computeRunningBalances utc ?txs))"
    by (simp add: t)
  have i: "inAmounts ?es = inAmounts ?es'"
    using assms(1) by (simp add: inAmounts_def entryOf_def)
  have o: "otherAmounts ?es
             = foldl numAdd (numAdd (otherAmounts (map entryOf before)) (Finite a))
                 (map entry.amount (filter (\<lambda>t. entry.type t \<noteq> ''IN'') (map entryOf after)))"
    using assms(1,2) by (simp add: otherAmounts_def sumNumbers_def entryOf_def)
  have w: "\<exists>i out. inAmounts ?es' = Finite i \<and> otherAmounts ?es' = Finite out
             \<and> numSub (inAmounts ?es') (otherAmounts ?es') = Finite (i - out)
             \<and> otherAmounts ?es = Finite (out - \<bar>a\<bar>)
             \<and> numSub (inAmounts ?es) (otherAmounts ?es) = Finite (i - out + \<bar>a\<bar>)"
    if safe: "safeWholeAmounts (map Transaction.amount ?txs)"
  proof -
    have am: "map entry.amount ?es = map Transaction.amount ?txs"
      "map entry.amount ?es' = map Transaction.amount (before @ after)"
      by (simp_all add: entryOf_def comp_def)
    have s: "safeWholeAmounts (map entry.amount ?es)"
      using safe by (simp only: am)
    have "0 \<le> magnitude (Transaction.amount tx)" by (rule magnitude_nonneg)
    then have s': "safeWholeAmounts (map entry.amount ?es')"
      using safe unfolding am by (simp add: safeWholeAmounts_def)
    note t = totals_whole [OF s] and t' = totals_whole [OF s']
    have iv: "inValue ?es = inValue ?es'"
      using assms(1) by (simp add: inValue_def entryOf_def)
    have ov: "otherValue ?es = otherValue ?es' - \<bar>a\<bar>"
      using assms by (simp add: otherValue_def entryOf_def)
    have "numSub (inAmounts ?es') (otherAmounts ?es') = Finite (inValue ?es' - otherValue ?es')"
      using in_minus_other_whole [OF s'] by (simp only: t'(1,2))
    moreover have "numSub (inAmounts ?es) (otherAmounts ?es)
                     = Finite (inValue ?es' - otherValue ?es' + \<bar>a\<bar>)"
    proof -
      have "numSub (inAmounts ?es) (otherAmounts ?es) = Finite (inValue ?es - otherValue ?es)"
        using in_minus_other_whole [OF s] by (simp only: t(1,2))
      also have "inValue ?es - otherValue ?es = inValue ?es' - otherValue ?es' + \<bar>a\<bar>"
        unfolding iv ov by simp
      finally show ?thesis .
    qed
    moreover have "otherAmounts ?es = Finite (otherValue ?es' - \<bar>a\<bar>)"
      by (simp only: t(2) ov)
    ultimately show ?thesis using t'(1,2) by blast
  qed
  obtain bk where bk:
    "getBookTotals (Some (data\<lparr>ledger.entries := Some ?es\<rparr>)) = Some bk"
    "BookWithTotals.totalIn bk = inAmounts ?es"
    "BookWithTotals.totalOut bk = otherAmounts ?es"
    "BookWithTotals.balance bk = numSub (inAmounts ?es) (otherAmounts ?es)"
    by (simp add: getBookTotals_def sumEntries_Some del: map_append)
  obtain bk' where bk':
    "getBookTotals (Some (data\<lparr>ledger.entries := Some ?es'\<rparr>)) = Some bk'"
    "BookWithTotals.totalIn bk' = inAmounts ?es'"
    "BookWithTotals.totalOut bk' = otherAmounts ?es'"
    "BookWithTotals.balance bk' = numSub (inAmounts ?es') (otherAmounts ?es')"
    by (simp add: getBookTotals_def sumEntries_Some del: map_append)
  have p: "getBookTotals (Some (data\<lparr>ledger.entries := Some ?es\<rparr>)) = Some bk
           \<and> getBookTotals (Some (data\<lparr>ledger.entries := Some ?es'\<rparr>)) = Some bk'
           \<and> BookWithTotals.totalIn bk = BookWithTotals.totalIn bk'
           \<and> BookWithTotals.totalOut bk
               = foldl numAdd (numAdd (otherAmounts (map entryOf before)) (Finite a))
                   (map entry.amount (filter (\<lambda>t. entry.type t \<noteq> ''IN'') (map entryOf after)))
           \<and> BookWithTotals.balance bk
               = numSub (BookWithTotals.totalIn bk) (BookWithTotals.totalOut bk)
           \<and> (safeWholeAmounts (map Transaction.amount ?txs) \<longrightarrow>
                (\<exists>i out. BookWithTotals.totalIn bk' = Finite i
                   \<and> BookWithTotals.totalOut bk' = Finite out
                   \<and> BookWithTotals.balance bk' = Finite (i - out)
                   \<and> BookWithTotals.totalOut bk = Finite (out - \<bar>a\<bar>)
                   \<and> BookWithTotals.balance bk = Finite (i - out + \<bar>a\<bar>)))"
  proof (intro conjI)
    show "getBookTotals (Some (data\<lparr>ledger.entries := Some ?es\<rparr>)) = Some bk" by (rule bk(1))
    show "getBookTotals (Some (data\<lparr>ledger.entries := Some ?es'\<rparr>)) = Some bk'" by (rule bk'(1))
    show "BookWithTotals.totalIn bk = BookWithTotals.totalIn bk'"
      by (simp only: bk(2) bk'(2) i)
    show "BookWithTotals.totalOut bk
            = foldl numAdd (numAdd (otherAmounts (map entryOf before)) (Finite a))
                (map entry.amount (filter (\<lambda>t. entry.type t \<noteq> ''IN'') (map entryOf after)))"
      by (simp only: bk(3) o)
    show "BookWithTotals.balance bk
            = numSub (BookWithTotals.totalIn bk) (BookWithTotals.totalOut bk)"
      by (simp only: bk(2,3,4))
    show "safeWholeAmounts (map Transaction.amount ?txs) \<longrightarrow>
                (\<exists>i out. BookWithTotals.totalIn bk' = Finite i
                   \<and> BookWithTotals.totalOut bk' = Finite out
                   \<and> BookWithTotals.balance bk' = Finite (i - out)
                   \<and> BookWithTotals.totalOut bk = Finite (out - \<bar>a\<bar>)
                   \<and> BookWithTotals.balance bk = Finite (i - out + \<bar>a\<bar>))"
    proof
      assume "safeWholeAmounts (map Transaction.amount ?txs)"
      from w [OF this]
      show "\<exists>i out. BookWithTotals.totalIn bk' = Finite i
                   \<and> BookWithTotals.totalOut bk' = Finite out
                   \<and> BookWithTotals.balance bk' = Finite (i - out)
                   \<and> BookWithTotals.totalOut bk = Finite (out - \<bar>a\<bar>)
                   \<and> BookWithTotals.balance bk = Finite (i - out + \<bar>a\<bar>)"
        by (simp only: bk(2,3,4) bk'(2,3,4))
    qed
  qed
  have 3: "\<exists>bk bk'.
             getBookTotals (Some (data\<lparr>ledger.entries := Some ?es\<rparr>)) = Some bk
           \<and> getBookTotals (Some (data\<lparr>ledger.entries := Some ?es'\<rparr>)) = Some bk'
           \<and> BookWithTotals.totalIn bk = BookWithTotals.totalIn bk'
           \<and> BookWithTotals.totalOut bk
               = foldl numAdd (numAdd (otherAmounts (map entryOf before)) (Finite a))
                   (map entry.amount (filter (\<lambda>t. entry.type t \<noteq> ''IN'') (map entryOf after)))
           \<and> BookWithTotals.balance bk
               = numSub (BookWithTotals.totalIn bk) (BookWithTotals.totalOut bk)
           \<and> (safeWholeAmounts (map Transaction.amount ?txs) \<longrightarrow>
                (\<exists>i out. BookWithTotals.totalIn bk' = Finite i
                   \<and> BookWithTotals.totalOut bk' = Finite out
                   \<and> BookWithTotals.balance bk' = Finite (i - out)
                   \<and> BookWithTotals.totalOut bk = Finite (out - \<bar>a\<bar>)
                   \<and> BookWithTotals.balance bk = Finite (i - out + \<bar>a\<bar>)))"
    by (rule exI [where x = bk], rule exI [where x = bk'], rule p)
  from 1 2 3 show ?thesis by (simp only: simp_thms)
qed

theorem negative_out_amount_witness:
  "Transaction.type negativeOut = ''OUT''
   \<and> Transaction.amount negativeOut = Finite (- 5)
   \<and> (- 5 :: rat) < 0
   \<and> safeWholeAmounts (map Transaction.amount (scenario1 @ [negativeOut]))
   \<and> map runningBalance (computeRunningBalances utcIndia (scenario1 @ [negativeOut]))
       = [Finite 75, Finite 70, Finite 60, Finite 100]
   \<and> map_option BookWithTotals.totalOut
        (getBookTotals (Some (mkLedger (map entryOf (scenario1 @ [negativeOut])))))
       = Some (Finite 35)"
proof -
  have h: "Transaction.type negativeOut = ''OUT''" "Transaction.amount negativeOut = Finite (- 5)"
    "(- 5 :: rat) < 0"
    by (simp_all add: negativeOut_def mkTx_def)
  have s: "safeWholeAmounts (map Transaction.amount (scenario1 @ [negativeOut]))"
    by (simp add: safeWholeAmounts_def scenario1_def negativeOut_def mkTx_def)
  have e: "map runningBalance (computeRunningBalances utcIndia (scenario1 @ [negativeOut]))
             = [Finite 75, Finite 70, Finite 60, Finite 100]"
    unfolding computeRunningBalances_def sorted_scenario1_negativeOut
    by (simp add: mkTx_def Let_def numSub_def toNumber_whole TransactionType_IN_def
          Transaction.extend_def)
  have o: "map_option BookWithTotals.totalOut
             (getBookTotals (Some (mkLedger (map entryOf (scenario1 @ [negativeOut])))))
             = Some (Finite 35)"
    by (simp add: getBookTotals_def mkLedger_def sumEntries_def scenario1_def negativeOut_def
          mkTx_def entryOf_def toNumber_whole)
  from negative_out_amount_is_counted [OF h, of utcIndia scenario1 "[]" "mkLedger []"] h s e o
  show ?thesis by (simp only: simp_thms)
qed

text \<open>
  C6. \<open>getBusinesses\<close> returns one summary for each project it is given, the owned ones
  and then the shared ones, in their order. In the summary of a project, \<open>totalIn\<close> is the
  sum of the \<open>totalIn\<close> of the book summaries of its ledgers, \<open>totalOut\<close> the sum of their
  \<open>totalOut\<close>, \<open>balance\<close> is \<open>totalIn - totalOut\<close> and \<open>bookCount\<close> is the number of its
  ledgers; the book summaries are those that \<open>getBooks\<close> computes for the ledgers, and the
  sums add them from 0 in the order of the ledgers, as doubles. The books attached to the
  summary are these book summaries, each once, under the id of the project and ordered
  newest first. The same sums hold of the summary that \<open>BusinessDetailView.loadData\<close>
  builds from a sequence of book summaries, which keeps the fields of its business.
\<close>

theorem business_totals_sum_the_books:
  "list_all2
     (\<lambda>s b. Business.id s = project.id b
        \<and> sumsItsBooks s (getBooks (Some (ledgersOf b)))
        \<and> BusinessWithTotals.bookCount s = length (ledgersOf b)
        \<and> (\<exists>bs. BusinessWithTotals.books s = Some bs
               \<and> mset bs = mset (map (\<lambda>bk. bk\<lparr>Book.businessId := project.id b\<rparr>)
                                    (getBooks (Some (ledgersOf b))))
               \<and> sorted_wrt (\<lambda>a c. Book.createdAt c \<le> Book.createdAt a) bs))
     (getBusinesses ownedData sharedData) (allBusinesses ownedData sharedData)
   \<and> sumsItsBooks (loadData bRaw booksData) booksData
   \<and> Business.truncate (loadData bRaw booksData) = bRaw"
proof -
  have "list_all2
     (\<lambda>s b. Business.id s = project.id b
        \<and> sumsItsBooks s (getBooks (Some (ledgersOf b)))
        \<and> BusinessWithTotals.bookCount s = length (ledgersOf b)
        \<and> (\<exists>bs. BusinessWithTotals.books s = Some bs
               \<and> mset bs = mset (map (\<lambda>bk. bk\<lparr>Book.businessId := project.id b\<rparr>)
                                    (getBooks (Some (ledgersOf b))))
               \<and> sorted_wrt (\<lambda>a c. Book.createdAt c \<le> Book.createdAt a) bs))
     (map toBusinessWithTotals ps) ps" for ps
    by (induction ps) (simp_all only: list.map list_all2_Nil list_all2_Cons
          toBusinessWithTotals_summary simp_thms)
  moreover have "Business.truncate (loadData bRaw booksData) = bRaw"
    by (simp add: loadData_def Let_def Business.truncate_def Business.extend_def)
  ultimately show ?thesis
    by (simp only: getBusinesses_map loadData_sums simp_thms)
qed

text \<open>
  C7. Empty input is a zero result: \<open>computeRunningBalances\<close> of no transactions is the
  empty sequence (and so is \<open>getTransactionsWithBalance\<close> of no rows), and the business
  summary over zero books, in \<open>getBusinesses\<close> (an empty or an absent list of ledgers)
  as in \<open>loadData\<close>, has \<open>totalIn\<close>, \<open>totalOut\<close>, \<open>balance\<close> and \<open>bookCount\<close> all 0.
\<close>

theorem empty_input_is_zero_result:
  "computeRunningBalances utc [] = []
   \<and> getTransactionsWithBalance utc (Some []) = []
   \<and> BusinessWithTotals.totalIn (toBusinessWithTotals (b\<lparr>project.ledgers := Some []\<rparr>)) = Finite 0
   \<and> BusinessWithTotals.totalOut (toBusinessWithTotals (b\<lparr>project.ledgers := Some []\<rparr>)) = Finite 0
   \<and> BusinessWithTotals.balance (toBusinessWithTotals (b\<lparr>project.ledgers := Some []\<rparr>)) = Finite 0
   \<and> BusinessWithTotals.bookCount (toBusinessWithTotals (b\<lparr>project.ledgers := Some []\<rparr>)) = 0
   \<and> BusinessWithTotals.books (toBusinessWithTotals (b\<lparr>project.ledgers := Some []\<rparr>)) = Some []
   \<and> BusinessWithTotals.totalIn (toBusinessWithTotals (b\<lparr>project.ledgers := None\<rparr>)) = Finite 0
   \<and> BusinessWithTotals.totalOut (toBusinessWithTotals (b\<lparr>project.ledgers := None\<rparr>)) = Finite 0
   \<and> BusinessWithTotals.balance (toBusinessWithTotals (b\<lparr>project.ledgers := None\<rparr>)) = Finite 0
   \<and> BusinessWithTotals.bookCount (toBusinessWithTotals (b\<lparr>project.ledgers := None\<rparr>)) = 0
   \<and> BusinessWithTotals.totalIn (loadData bRaw []) = Finite 0
   \<and> BusinessWithTotals.totalOut (loadData bRaw []) = Finite 0
   \<and> BusinessWithTotals.balance (loadData bRaw []) = Finite 0
   \<and> BusinessWithTotals.bookCount (loadData bRaw []) = 0"
  by (simp add: computeRunningBalances_def getTransactionsWithBalance_def sortedAsc_def
        array_sort_def toBusinessWithTotals_def loadData_def Business.extend_def numSub_def
        toNumber_0 Let_def)

text \<open>
  C8. For every draw \<open>random\<close> of \<open>Math.random()\<close>, that is every double with
  \<open>0 \<le> random < 1\<close>, the join code is the decimal representation of an integer from
  100000 to 999999: a string of exactly 6 decimal digits. The product and the sum are
  rounded as doubles: the largest draw \<open>1 - 2^-53\<close> gives the sum \<open>1000000 - 2^-33\<close>, which
  is a double below 1000000, and rounding is monotone.
\<close>

theorem join_code_is_six_digits:
  assumes "isNumber random" and "0 \<le> random" and "random < 1"
  shows "\<exists>n code. 100000 \<le> n \<and> n \<le> 999999
             \<and> joinCode (Finite random) = Some code
             \<and> code = natToString n
             \<and> digitsVal 0 code = Some n
             \<and> length code = 6
             \<and> list_all (\<lambda>c. c \<in> set ''0123456789'') code"
proof -
  obtain s where s: "numAdd (Finite 100000) (numMul (Finite random) (Finite 900000)) = Finite s"
    and lo: "100000 \<le> s" and hi: "s < 1000000"
    using joinCode_range [OF assms] by blast
  define n where "n = nat \<lfloor>s\<rfloor>"
  have f: "100000 \<le> \<lfloor>s\<rfloor>" "\<lfloor>s\<rfloor> < 1000000"
    using lo hi by (simp_all add: le_floor_iff floor_less_iff)
  then have r: "100000 \<le> n" "n \<le> 999999" and i: "\<lfloor>s\<rfloor> = int n"
    unfolding n_def by linarith+
  have a: "\<bar>of_int \<lfloor>s\<rfloor> :: rat\<bar> < 10 ^ 21"
    using f by simp
  have "\<not> (of_int \<lfloor>s\<rfloor> :: rat) < 0" using f by simp
  with a have j: "joinCode (Finite random) = Some (natToString n)"
    unfolding joinCode_def s by (simp add: n_def)
  have "length (natToString n) = Suc 5"
    using r by (intro length_natToString) simp_all
  then have "length (natToString n) = 6" by simp
  with r j digitsVal_natToString [of n] digits_natToString [of n] show ?thesis
    by blast
qed

theorem join_code_witness:
  "isNumber (3152519739159347 / 4503599627370496)
   \<and> (0::rat) \<le> 3152519739159347 / 4503599627370496
   \<and> (3152519739159347 / 4503599627370496 :: rat) < 1
   \<and> toNumber (7 / 10) = Finite (3152519739159347 / 4503599627370496)
   \<and> joinCode (Finite (3152519739159347 / 4503599627370496)) = Some ''730000''"
proof -
  have h: "(0::rat) \<le> 3152519739159347 / 4503599627370496"
    "(3152519739159347 / 4503599627370496 :: rat) < 1"
    by simp_all
  from join_code_is_six_digits [OF isNumber_0_7 h] isNumber_0_7 h double_0_7 joinCode_0_7
  show ?thesis by (simp only: simp_thms)
qed

text \<open>
  C9, as the specification states it (for every entries list, \<open>totalIn + totalOut\<close> equals
  the sum of all amounts), fails: the two totals are rounded sums of their own, and for
  the entries 0.1 in, 0.1 out and 1.1 in, \<open>totalIn + totalOut\<close> is the double
  1.3000000000000003, while the amounts added in their order give the double 1.3, and
  their exact sum is no double at all.
\<close>

theorem totals_sum_rounding_counterexample:
  "map_option (\<lambda>bk. numAdd (BookWithTotals.totalIn bk) (BookWithTotals.totalOut bk))
     (getBookTotals (Some (mkLedger roundingEntries)))
     = Some (Finite (2927339757790823 / 2251799813685248))
   \<and> sumNumbers (map entry.amount roundingEntries)
       = Finite (5854679515581645 / 4503599627370496)
   \<and> map valueOf (map entry.amount roundingEntries)
       = [3602879701896397 / 36028797018963968, 3602879701896397 / 36028797018963968,
          2476979795053773 / 2251799813685248]
   \<and> (2927339757790823 / 2251799813685248 :: rat)
       \<noteq> 3602879701896397 / 36028797018963968 + 3602879701896397 / 36028797018963968
          + 2476979795053773 / 2251799813685248"
proof -
  have 1: "map_option (\<lambda>bk. numAdd (BookWithTotals.totalIn bk) (BookWithTotals.totalOut bk))
     (getBookTotals (Some (mkLedger roundingEntries)))
     = Some (Finite (2927339757790823 / 2251799813685248))"
    by (simp add: roundingEntries_def getBookTotals_def mkLedger_def sumEntries_def doubles
          del: numAdd.simps)
  have 2: "sumNumbers (map entry.amount roundingEntries)
       = Finite (5854679515581645 / 4503599627370496)"
    by (simp add: roundingEntries_def sumNumbers_def doubles del: numAdd.simps)
  have 3: "map valueOf (map entry.amount roundingEntries)
       = [3602879701896397 / 36028797018963968, 3602879701896397 / 36028797018963968,
          2476979795053773 / 2251799813685248]"
    by (simp add: roundingEntries_def doubles)
  have 4: "(2927339757790823 / 2251799813685248 :: rat)
       \<noteq> 3602879701896397 / 36028797018963968 + 3602879701896397 / 36028797018963968
          + 2476979795053773 / 2251799813685248"
    by simp
  from 1 2 3 4 show ?thesis by (simp only: simp_thms)
qed

text \<open>
  C9, amended. In \<open>getBookTotals\<close>, \<open>getBooks\<close> and \<open>getBusinesses\<close>, \<open>totalIn\<close> is the sum of
  the amounts of the entries whose type is the string \<open>'IN'\<close> and \<open>totalOut\<close> the sum of the
  amounts of all other entries, whatever their type string is, so no entry is skipped; at
  the business level the sums of the ledgers are added in the order of the ledgers. When
  the amounts are whole numbers with magnitudes that add up to less than \<open>2^53\<close>, so that
  no addition rounds, \<open>totalIn + totalOut\<close> is the sum of all amounts, and the totals of a
  business are the sums over the entries of all its ledgers.
\<close>

theorem every_entry_is_counted_in_or_out:
  "(\<exists>bk. getBookTotals (Some (data\<lparr>ledger.entries := Some ts\<rparr>)) = Some bk
        \<and> BookWithTotals.totalIn bk = inAmounts ts
        \<and> BookWithTotals.totalOut bk = otherAmounts ts
        \<and> (safeWholeAmounts (map entry.amount ts) \<longrightarrow>
             numAdd (BookWithTotals.totalIn bk) (BookWithTotals.totalOut bk)
               = sumNumbers (map entry.amount ts)))
   \<and> map BookWithTotals.totalIn (getBooks (Some ls)) = map (inAmounts \<circ> entriesOf) ls
   \<and> map BookWithTotals.totalOut (getBooks (Some ls)) = map (otherAmounts \<circ> entriesOf) ls
   \<and> BusinessWithTotals.totalIn (toBusinessWithTotals (b\<lparr>project.ledgers := Some ls\<rparr>))
       = sumNumbers (map (inAmounts \<circ> entriesOf) ls)
   \<and> BusinessWithTotals.totalOut (toBusinessWithTotals (b\<lparr>project.ledgers := Some ls\<rparr>))
       = sumNumbers (map (otherAmounts \<circ> entriesOf) ls)
   \<and> (safeWholeAmounts (map entry.amount (concat (map entriesOf ls))) \<longrightarrow>
        BusinessWithTotals.totalIn (toBusinessWithTotals (b\<lparr>project.ledgers := Some ls\<rparr>))
          = inAmounts (concat (map entriesOf ls))
        \<and> BusinessWithTotals.totalOut (toBusinessWithTotals (b\<lparr>project.ledgers := Some ls\<rparr>))
          = otherAmounts (concat (map entriesOf ls))
        \<and> numAdd (BusinessWithTotals.totalIn (toBusinessWithTotals (b\<lparr>project.ledgers := Some ls\<rparr>)))
                 (BusinessWithTotals.totalOut (toBusinessWithTotals (b\<lparr>project.ledgers := Some ls\<rparr>)))
          = sumNumbers (map entry.amount (concat (map entriesOf ls))))"
proof -
  have w: "numAdd (inAmounts ts) (otherAmounts ts) = sumNumbers (map entry.amount ts)"
    if "safeWholeAmounts (map entry.amount ts)" for ts
    using in_plus_other_whole [OF that] totals_whole(1,2) [OF that] by simp
  have 1: "\<exists>bk. getBookTotals (Some (data\<lparr>ledger.entries := Some ts\<rparr>)) = Some bk
        \<and> BookWithTotals.totalIn bk = inAmounts ts
        \<and> BookWithTotals.totalOut bk = otherAmounts ts
        \<and> (safeWholeAmounts (map entry.amount ts) \<longrightarrow>
             numAdd (BookWithTotals.totalIn bk) (BookWithTotals.totalOut bk)
               = sumNumbers (map entry.amount ts))"
    using w [of ts] by (simp add: getBookTotals_def sumEntries_Some)
  have 2: "map BookWithTotals.totalIn (getBooks (Some ls)) = map (inAmounts \<circ> entriesOf) ls"
    by (rule getBooks_totalIn)
  have 3: "map BookWithTotals.totalOut (getBooks (Some ls)) = map (otherAmounts \<circ> entriesOf) ls"
    by (rule getBooks_totalOut)
  note 4 = toBusinessWithTotals_totals [where b = b and ls = ls]
  have 5: "safeWholeAmounts (map entry.amount (concat (map entriesOf ls))) \<longrightarrow>
           sumNumbers (map (inAmounts \<circ> entriesOf) ls) = inAmounts (concat (map entriesOf ls))
         \<and> sumNumbers (map (otherAmounts \<circ> entriesOf) ls) = otherAmounts (concat (map entriesOf ls))
         \<and> numAdd (sumNumbers (map (inAmounts \<circ> entriesOf) ls))
                  (sumNumbers (map (otherAmounts \<circ> entriesOf) ls))
             = sumNumbers (map entry.amount (concat (map entriesOf ls)))"
  proof
    assume safe: "safeWholeAmounts (map entry.amount (concat (map entriesOf ls)))"
    from business_totals_whole [OF safe] totals_whole(1,2) [OF safe] w [OF safe]
    show "sumNumbers (map (inAmounts \<circ> entriesOf) ls) = inAmounts (concat (map entriesOf ls))
         \<and> sumNumbers (map (otherAmounts \<circ> entriesOf) ls) = otherAmounts (concat (map entriesOf ls))
         \<and> numAdd (sumNumbers (map (inAmounts \<circ> entriesOf) ls))
                  (sumNumbers (map (otherAmounts \<circ> entriesOf) ls))
             = sumNumbers (map entry.amount (concat (map entriesOf ls)))"
      by (simp only: simp_thms)
  qed
  from 1 2 3 4 5 show ?thesis by (simp only: simp_thms)
qed

theorem every_entry_is_counted_witness:
  "safeWholeAmounts (map entry.amount (map entryOf scenario1))
   \<and> safeWholeAmounts
       (map entry.amount (concat (map entriesOf [mkLedger (map entryOf scenario1)])))
   \<and> map_option (\<lambda>bk. (BookWithTotals.totalIn bk, BookWithTotals.totalOut bk))
        (getBookTotals (Some (mkLedger (map entryOf scenario1))))
       = Some (Finite 110, Finite 40)
   \<and> sumNumbers (map entry.amount (map entryOf scenario1)) = Finite 150"
proof -
  have h: "safeWholeAmounts (map entry.amount (map entryOf scenario1))"
    by (simp add: safeWholeAmounts_def scenario1_def mkTx_def entryOf_def)
  have h': "safeWholeAmounts
              (map entry.amount (concat (map entriesOf [mkLedger (map entryOf scenario1)])))"
    by (simp add: safeWholeAmounts_def scenario1_def mkTx_def entryOf_def entriesOf_def
          mkLedger_def)
  have e: "map_option (\<lambda>bk. (BookWithTotals.totalIn bk, BookWithTotals.totalOut bk))
        (getBookTotals (Some (mkLedger (map entryOf scenario1))))
       = Some (Finite 110, Finite 40)"
    by (simp add: getBookTotals_def mkLedger_def totals_scenario1)
  have s: "sumNumbers (map entry.amount (map entryOf scenario1)) = Finite 150"
    by (simp add: sumNumbers_def scenario1_def mkTx_def entryOf_def toNumber_whole)
  from every_entry_is_counted_in_or_out
         [where data = "mkLedger []" and ts = "map entryOf scenario1"
            and ls = "[mkLedger (map entryOf scenario1)]"]
       h h' e s
  show ?thesis by (simp only: simp_thms)
qed

text \<open>
  C10. \<open>computeRunningBalances\<close> only annotates. Run on the store, it leaves the input
  array and every other array that existed before as they were (the sort works on a copy),
  and the array it returns holds the result of \<open>computeRunningBalances\<close>, whose elements
  are, position by position, the transactions of the sorted and reversed copy of the
  input, each with all its fields unchanged and with \<open>runningBalance\<close> as the only added
  field; that copy has exactly the transactions of the input.
\<close>

theorem annotates_only_and_leaves_input:
  assumes "txs < length s" and "s ! txs = Transactions xs"
  shows "\<exists>out s'. computeRunningBalances_store utc txs s = Some (out, s')
           \<and> take (length s) s' = s
           \<and> s' ! txs = Transactions xs
           \<and> withBalancesAt s' out = Some (computeRunningBalances utc xs)
           \<and> list_all2 annotates (computeRunningBalances utc xs) (rev (sortedAsc utc xs))
           \<and> mset (rev (sortedAsc utc xs)) = mset xs"
proof -
  have "list_all2 annotates (rev (withBalance (Finite 0) (sortedAsc utc xs))) (rev (sortedAsc utc xs))"
    using annotates_withBalance by (simp only: list_all2_rev)
  then have a: "list_all2 annotates (computeRunningBalances utc xs) (rev (sortedAsc utc xs))"
    by (simp add: computeRunningBalances_def)
  have m: "mset (rev (sortedAsc utc xs)) = mset xs"
    by (simp add: sortedAsc_def mset_array_sort)
  from store_run [OF assms, of utc] a m assms show ?thesis
    by (simp add: withBalancesAt_def nth_append)
qed

theorem annotates_only_witness:
  "(0::nat) < length [Transactions scenario1] \<and> [Transactions scenario1] ! 0 = Transactions scenario1
   \<and> map_option (\<lambda>(out, s'). (s' ! 0, map_option (map Transaction.id) (withBalancesAt s' out)))
       (computeRunningBalances_store utcIndia 0 [Transactions scenario1])
      = Some (Transactions scenario1, Some [''c'', ''b'', ''a''])"
proof -
  have h: "(0::nat) < length [Transactions scenario1]"
    "[Transactions scenario1] ! 0 = Transactions scenario1"
    by simp_all
  have "map Transaction.id (computeRunningBalances utcIndia scenario1)
          = map Transaction.id (map Transaction.truncate (computeRunningBalances utcIndia scenario1))"
    by (simp add: Transaction.truncate_def comp_def)
  also have "\<dots> = [''c'', ''b'', ''a'']"
    unfolding truncate_computeRunningBalances sorted_scenario1 by (simp add: mkTx_def)
  finally have i: "map Transaction.id (computeRunningBalances utcIndia scenario1)
                     = [''c'', ''b'', ''a'']" .
  have e: "map_option (\<lambda>(out, s'). (s' ! 0, map_option (map Transaction.id) (withBalancesAt s' out)))
       (computeRunningBalances_store utcIndia 0 [Transactions scenario1])
      = Some (Transactions scenario1, Some [''c'', ''b'', ''a''])"
    using store_run [OF h, of utcIndia] i by (simp add: withBalancesAt_def)
  from annotates_only_and_leaves_input [OF h, of utcIndia] h e show ?thesis
    by simp
qed

end
